theory Spec2Isabelle
  imports Main "HOL-Library.Word"
begin

section \<open>The stack pool: data model\<close>

text \<open>
  The repository holds three variants of one class template \<open>stack_pool<T, N>\<close>:
  \<^item> \<open>exam/stack_pool.hpp\<close>, the header (no validation, iterators carry a handle);
  \<^item> \<open>exam/src/stack_pool.cpp\<close>, the validated variant (\<open>check_index\<close> guards push and pop);
  \<^item> \<open>exam/src/first_impl.cpp\<close>, the first implementation (iterators carry a node address,
    \<open>capacity()\<close> answers \<open>pool.size()\<close>).
  The handle type \<open>N\<close> is left at its default \<open>std::size_t\<close>, a 64-bit unsigned integer:
  handle arithmetic (\<open>x - 1\<close> in \<open>node\<close>) wraps around. The value type \<open>T\<close> stays a type
  variable.

  Names follow the source. Where the source's name is a keyword here, it carries a suffix:
  the fields \<open>value\<close> and \<open>next\<close> of \<open>node_t\<close> are \<open>value_n\<close> and \<open>next_n\<close>; the accessors
  \<open>value(x)\<close> and \<open>next(x)\<close> are \<open>value_at\<close> and \<open>next_at\<close> for reading, \<open>set_value\<close> and
  \<open>set_next\<close> for assigning through the reference; \<open>empty\<close> and \<open>end()\<close> are \<open>empty_stack\<close> and
  \<open>end_stack\<close>; \<open>begin(x)\<close> and \<open>end(x)\<close> are \<open>begin_it\<close> and \<open>end_it\<close>; the iterator's
  \<open>operator==\<close>, \<open>operator!=\<close>, \<open>operator*\<close> and \<open>operator++\<close> are \<open>it_eq\<close>, \<open>it_neq\<close>,
  \<open>it_deref\<close> and \<open>it_incr\<close>; the enumeration \<open>method\<close> is \<open>method_e\<close>. Every operation takes
  the pool it acts on as an argument and returns the pool it leaves.
\<close>

type_synonym stack_type = "64 word"

record 'a node_t =
  value_n :: 'a
  next_n :: stack_type

text \<open>
  \<open>std::vector<node_t> pool\<close> is a list of nodes together with the capacity the vector has
  reserved; \<open>free_nodes\<close> is the head of the free list.
\<close>

record 'a stack_pool =
  pool :: "'a node_t list"
  cap :: nat
  free_nodes :: stack_type

text \<open>
  \<open>pool[i]\<close> with \<open>i\<close> not below \<open>pool.size()\<close> is undefined behaviour in C++. The model
  makes it a fault that carries the position addressed.
\<close>

datatype fault = OutOfRange nat

subsection \<open>The vector operations the class uses\<close>

text \<open>
  \<open>reserve\<close> never shrinks and makes the capacity at least \<open>n\<close>. \<open>push_back\<close> appends, and
  reallocates only when the size has reached the capacity (libstdc++ then adds
  \<open>max(size, 1)\<close> to it).
\<close>

definition vector_reserve :: "nat \<Rightarrow> 'a stack_pool \<Rightarrow> 'a stack_pool" where
  "vector_reserve n p = (if cap p < n then p\<lparr>cap := n\<rparr> else p)"

definition push_back :: "'a node_t \<Rightarrow> 'a stack_pool \<Rightarrow> 'a stack_pool" where
  "push_back nd p =
     (if length (pool p) < cap p then p\<lparr>pool := pool p @ [nd]\<rparr>
      else p\<lparr>pool := pool p @ [nd],
             cap := length (pool p) + max (length (pool p)) 1\<rparr>)"

subsection \<open>Construction and accessors (all variants)\<close>

definition stack_pool_default :: "'a stack_pool" where
  "stack_pool_default = \<lparr>pool = [], cap = 0, free_nodes = 0\<rparr>"

definition stack_pool_n :: "nat \<Rightarrow> 'a stack_pool" where
  "stack_pool_n n = vector_reserve n \<lparr>pool = [], cap = 0, free_nodes = 0\<rparr>"

definition end_stack :: stack_type where
  "end_stack = 0"

definition empty_stack :: "stack_type \<Rightarrow> bool" where
  "empty_stack x = (if x = end_stack then True else False)"

definition new_stack :: stack_type where
  "new_stack = 0"

definition reserve :: "'a stack_pool \<Rightarrow> nat \<Rightarrow> 'a stack_pool" where
  "reserve p n = vector_reserve n p"

text \<open>\<open>capacity()\<close> of the header and of the validated variant: \<open>pool.capacity()\<close>.\<close>

definition capacity :: "'a stack_pool \<Rightarrow> nat" where
  "capacity p = cap p"

text \<open>\<open>capacity()\<close> of \<open>first_impl.cpp\<close>: \<open>pool.size()\<close>.\<close>

definition capacity_first :: "'a stack_pool \<Rightarrow> nat" where
  "capacity_first p = length (pool p)"

text \<open>
  \<open>node(x)\<close> is \<open>pool[x-1]\<close>, the subtraction taken in the handle type: for \<open>x = 0\<close> the
  position addressed is \<open>2^64 - 1\<close>.
\<close>

definition node :: "'a stack_pool \<Rightarrow> stack_type \<Rightarrow> fault + 'a node_t" where
  "node p x =
     (let i = unat (x - 1)
      in if i < length (pool p) then Inr (pool p ! i) else Inl (OutOfRange i))"

definition value_at :: "'a stack_pool \<Rightarrow> stack_type \<Rightarrow> fault + 'a" where
  "value_at p x = (case node p x of Inl e \<Rightarrow> Inl e | Inr nd \<Rightarrow> Inr (value_n nd))"

definition next_at :: "'a stack_pool \<Rightarrow> stack_type \<Rightarrow> fault + stack_type" where
  "next_at p x = (case node p x of Inl e \<Rightarrow> Inl e | Inr nd \<Rightarrow> Inr (next_n nd))"

text \<open>Assignments through the references \<open>value(x)\<close> and \<open>next(x)\<close>.\<close>

definition set_value :: "'a stack_pool \<Rightarrow> stack_type \<Rightarrow> 'a \<Rightarrow> fault + 'a stack_pool" where
  "set_value p x v =
     (let i = unat (x - 1)
      in if i < length (pool p)
         then Inr (p\<lparr>pool := (pool p)[i := (pool p ! i)\<lparr>value_n := v\<rparr>]\<rparr>)
         else Inl (OutOfRange i))"

definition set_next :: "'a stack_pool \<Rightarrow> stack_type \<Rightarrow> stack_type \<Rightarrow> fault + 'a stack_pool" where
  "set_next p x n =
     (let i = unat (x - 1)
      in if i < length (pool p)
         then Inr (p\<lparr>pool := (pool p)[i := (pool p ! i)\<lparr>next_n := n\<rparr>]\<rparr>)
         else Inl (OutOfRange i))"

subsection \<open>Iterators of the header\<close>

text \<open>
  An iterator holds a pointer to its pool and a handle. The pointer is modelled by the
  identity of the pool object; the pool's contents are passed to the operations that read
  them.
\<close>

record iterator =
  it_pool :: nat
  stack_index :: stack_type

definition begin_it :: "nat \<Rightarrow> stack_type \<Rightarrow> iterator" where
  "begin_it this x = \<lparr>it_pool = this, stack_index = x\<rparr>"

definition end_it :: "nat \<Rightarrow> stack_type \<Rightarrow> iterator" where
  "end_it this x = \<lparr>it_pool = this, stack_index = end_stack\<rparr>"

definition it_eq :: "iterator \<Rightarrow> iterator \<Rightarrow> bool" where
  "it_eq x y = (stack_index x = stack_index y)"

definition it_neq :: "iterator \<Rightarrow> iterator \<Rightarrow> bool" where
  "it_neq x y = (\<not> it_eq x y)"

definition it_deref :: "'a stack_pool \<Rightarrow> iterator \<Rightarrow> fault + 'a" where
  "it_deref p it = value_at p (stack_index it)"

definition it_incr :: "'a stack_pool \<Rightarrow> iterator \<Rightarrow> fault + iterator" where
  "it_incr p it =
     (case next_at p (stack_index it) of
        Inl e \<Rightarrow> Inl e
      | Inr n \<Rightarrow> Inr (it\<lparr>stack_index := n\<rparr>))"

text \<open>
  The loop \<open>for (auto it = begin(x); it != end(0); it++) std::cout << *it\<close> of
  \<open>print_stack\<close>: the values visited, in order. A chain that never reaches the sentinel
  makes the loop run forever, which is the value \<open>None\<close>.
\<close>

partial_function (option) print_loop ::
  "'a stack_pool \<Rightarrow> iterator \<Rightarrow> iterator \<Rightarrow> 'a list \<Rightarrow> (fault + 'a list) option" where
  "print_loop p it e out =
     (if it_neq it e then
        (case it_deref p it of
           Inl f \<Rightarrow> Some (Inl f)
         | Inr v \<Rightarrow>
            (case it_incr p it of
               Inl f \<Rightarrow> Some (Inl f)
             | Inr it' \<Rightarrow> print_loop p it' e (out @ [v])))
      else Some (Inr out))"

definition print_stack :: "nat \<Rightarrow> 'a stack_pool \<Rightarrow> stack_type \<Rightarrow> (fault + 'a list) option" where
  "print_stack this p x = print_loop p (begin_it this x) (end_it this 0) []"

section \<open>Operations of the header \<open>stack_pool.hpp\<close>\<close>

text \<open>
  \<open>_push\<close>, \<open>pop\<close> and \<open>free_node\<close> read the same in \<open>first_impl.cpp\<close> (there without
  \<open>std::move\<close>, which on integers copies), and so does \<open>free_stack\<close> in the validated
  variant. The \<open>free_stack\<close> of \<open>first_impl.cpp\<close> has the same statements but runs its loop
  on that file's own iterators; it is defined separately below.
\<close>

definition push :: "'a stack_pool \<Rightarrow> 'a \<Rightarrow> stack_type \<Rightarrow> fault + (stack_type \<times> 'a stack_pool)" where
  "push p val head =
     (if \<not> empty_stack (free_nodes p) then
        (let tmp = free_nodes p in
         case next_at p (free_nodes p) of
           Inl e \<Rightarrow> Inl e
         | Inr n \<Rightarrow>
            (case set_value (p\<lparr>free_nodes := n\<rparr>) tmp val of
               Inl e \<Rightarrow> Inl e
             | Inr p2 \<Rightarrow>
                (case set_next p2 tmp head of
                   Inl e \<Rightarrow> Inl e
                 | Inr p3 \<Rightarrow> Inr (tmp, p3))))
      else
        (let p1 = push_back \<lparr>value_n = val, next_n = head\<rparr> p
         in Inr (of_nat (length (pool p1)), p1)))"

definition free_node ::
  "'a stack_pool \<Rightarrow> stack_type \<Rightarrow> stack_type \<Rightarrow> fault + (stack_type \<times> 'a stack_pool)" where
  "free_node p x free =
     (let tmp = free; free' = x in
      case set_next p free' tmp of
        Inl e \<Rightarrow> Inl e
      | Inr p' \<Rightarrow> Inr (free', p'))"

definition pop :: "'a stack_pool \<Rightarrow> stack_type \<Rightarrow> fault + (stack_type \<times> 'a stack_pool)" where
  "pop p x =
     (if \<not> empty_stack x then
        (case next_at p x of
           Inl e \<Rightarrow> Inl e
         | Inr head \<Rightarrow>
            (case free_node p x (free_nodes p) of
               Inl e \<Rightarrow> Inl e
             | Inr (f, p') \<Rightarrow> Inr (head, p'\<lparr>free_nodes := f\<rparr>)))
      else Inr (x, p))"

text \<open>
  The loop of \<open>free_stack\<close>: \<open>it\<close> runs from \<open>next(x)\<close> to the sentinel and \<open>x\<close> follows one
  node behind. The body \<open>x = next(x)\<close> runs first, then \<open>it++\<close>.
\<close>

partial_function (option) free_stack_loop ::
  "'a stack_pool \<Rightarrow> iterator \<Rightarrow> iterator \<Rightarrow> stack_type \<Rightarrow> (fault + stack_type) option" where
  "free_stack_loop p it e x =
     (if it_neq it e then
        (case next_at p x of
           Inl f \<Rightarrow> Some (Inl f)
         | Inr x' \<Rightarrow>
            (case it_incr p it of
               Inl f \<Rightarrow> Some (Inl f)
             | Inr it' \<Rightarrow> free_stack_loop p it' e x'))
      else Some (Inr x))"

definition free_stack ::
  "nat \<Rightarrow> 'a stack_pool \<Rightarrow> stack_type \<Rightarrow> (fault + (stack_type \<times> 'a stack_pool)) option" where
  "free_stack this p x =
     (let start = x in
      case next_at p x of
        Inl f \<Rightarrow> Some (Inl f)
      | Inr next_idx \<Rightarrow>
         (case free_stack_loop p (begin_it this next_idx) (end_it this 0) x of
            None \<Rightarrow> None
          | Some (Inl f) \<Rightarrow> Some (Inl f)
          | Some (Inr x') \<Rightarrow>
             (case set_next p x' (free_nodes p) of
                Inl f \<Rightarrow> Some (Inl f)
              | Inr p' \<Rightarrow> Some (Inr (end_stack, p'\<lparr>free_nodes := start\<rparr>)))))"

section \<open>The address-carrying iterators of \<open>first_impl.cpp\<close>\<close>

text \<open>
  In \<open>first_impl.cpp\<close> an iterator holds the address of a node, and \<open>begin(x)\<close> and \<open>end(x)\<close>
  form it as \<open>&node(x)\<close> and \<open>&node(end())\<close>, that is \<open>&pool[x-1]\<close> and \<open>&pool[0-1]\<close>. The
  address of a node is modelled by the storage position it points to. Forming it goes
  through \<open>pool[x-1]\<close>, so it is a fault exactly when \<open>node\<close> is one.
\<close>

definition node_addr :: "'a stack_pool \<Rightarrow> stack_type \<Rightarrow> fault + nat" where
  "node_addr p x =
     (let i = unat (x - 1)
      in if i < length (pool p) then Inr i else Inl (OutOfRange i))"

record iterator_first =
  it_pool_first :: nat
  current :: nat

definition begin_first :: "nat \<Rightarrow> 'a stack_pool \<Rightarrow> stack_type \<Rightarrow> fault + iterator_first" where
  "begin_first this p x =
     (case node_addr p x of
        Inl f \<Rightarrow> Inl f
      | Inr a \<Rightarrow> Inr \<lparr>it_pool_first = this, current = a\<rparr>)"

definition end_first :: "nat \<Rightarrow> 'a stack_pool \<Rightarrow> stack_type \<Rightarrow> fault + iterator_first" where
  "end_first this p x =
     (case node_addr p end_stack of
        Inl f \<Rightarrow> Inl f
      | Inr a \<Rightarrow> Inr \<lparr>it_pool_first = this, current = a\<rparr>)"

definition it_eq_first :: "iterator_first \<Rightarrow> iterator_first \<Rightarrow> bool" where
  "it_eq_first x y = (current x = current y)"

definition it_neq_first :: "iterator_first \<Rightarrow> iterator_first \<Rightarrow> bool" where
  "it_neq_first x y = (\<not> it_eq_first x y)"

text \<open>\<open>operator++\<close>: \<open>current = &p->next_node(current->next)\<close>, where \<open>next_node\<close> is \<open>node\<close>.\<close>

definition it_incr_first :: "'a stack_pool \<Rightarrow> iterator_first \<Rightarrow> fault + iterator_first" where
  "it_incr_first p it =
     (if current it < length (pool p) then
        (case node_addr p (next_n (pool p ! current it)) of
           Inl f \<Rightarrow> Inl f
         | Inr a \<Rightarrow> Inr (it\<lparr>current := a\<rparr>))
      else Inl (OutOfRange (current it)))"

text \<open>
  \<open>free_stack\<close> of \<open>first_impl.cpp\<close>. The loop test \<open>it != end(0)\<close> forms \<open>end(0)\<close> each time
  it runs.
\<close>

partial_function (option) free_stack_loop_first ::
  "nat \<Rightarrow> 'a stack_pool \<Rightarrow> iterator_first \<Rightarrow> stack_type \<Rightarrow> (fault + stack_type) option" where
  "free_stack_loop_first this p it x =
     (case end_first this p 0 of
        Inl f \<Rightarrow> Some (Inl f)
      | Inr e \<Rightarrow>
         (if it_neq_first it e then
            (case next_at p x of
               Inl f \<Rightarrow> Some (Inl f)
             | Inr x' \<Rightarrow>
                (case it_incr_first p it of
                   Inl f \<Rightarrow> Some (Inl f)
                 | Inr it' \<Rightarrow> free_stack_loop_first this p it' x'))
          else Some (Inr x)))"

definition free_stack_first ::
  "nat \<Rightarrow> 'a stack_pool \<Rightarrow> stack_type \<Rightarrow> (fault + (stack_type \<times> 'a stack_pool)) option" where
  "free_stack_first this p x =
     (let start = x in
      case next_at p x of
        Inl f \<Rightarrow> Some (Inl f)
      | Inr next_idx \<Rightarrow>
         (case begin_first this p next_idx of
            Inl f \<Rightarrow> Some (Inl f)
          | Inr it \<Rightarrow>
             (case free_stack_loop_first this p it x of
                None \<Rightarrow> None
              | Some (Inl f) \<Rightarrow> Some (Inl f)
              | Some (Inr x') \<Rightarrow>
                 (case set_next p x' (free_nodes p) of
                    Inl f \<Rightarrow> Some (Inl f)
                  | Inr p' \<Rightarrow> Some (Inr (end_stack, p'\<lparr>free_nodes := start\<rparr>))))))"

section \<open>The validated variant \<open>src/stack_pool.cpp\<close>\<close>

datatype index_invalid = Index_invalid (message: string)

datatype method_e = Push | Pop

text \<open>\<open>std::to_string\<close> on an unsigned integer: its decimal digits.\<close>

definition digit_char :: "nat \<Rightarrow> char" where
  "digit_char d = ''0123456789'' ! d"

function to_string :: "nat \<Rightarrow> string" where
  "to_string n =
     (if n < 10 then [digit_char n] else to_string (n div 10) @ [digit_char (n mod 10)])"
  by pat_completeness auto
termination
  by (relation "measure id") auto

declare to_string.simps [simp del]

definition check_index :: "stack_type \<Rightarrow> method_e \<Rightarrow> index_invalid + unit" where
  "check_index x m =
     (case m of
        Push \<Rightarrow>
          (if x < end_stack
           then Inl (Index_invalid (''You provided an invalid index: '' @ to_string (unat x)))
           else Inr ())
      | Pop \<Rightarrow>
          (if x \<le> end_stack
           then Inl (Index_invalid (''You provided an invalid index: '' @ to_string (unat x)))
           else Inr ()))"

text \<open>
  \<open>_push\<close> and \<open>pop\<close> of the validated variant catch the error themselves, write its
  message to \<open>std::cerr\<close> and return 1. The third component of the result is what the call
  wrote to \<open>std::cerr\<close>. After the check both bodies are those of the header.
\<close>

definition push_checked ::
  "'a stack_pool \<Rightarrow> 'a \<Rightarrow> stack_type \<Rightarrow> fault + (stack_type \<times> 'a stack_pool \<times> string list)" where
  "push_checked p val head =
     (case check_index head Push of
        Inl s \<Rightarrow> Inr (1, p, [message s])
      | Inr _ \<Rightarrow>
         (case push p val head of
            Inl f \<Rightarrow> Inl f
          | Inr (h, p') \<Rightarrow> Inr (h, p', [])))"

definition pop_checked ::
  "'a stack_pool \<Rightarrow> stack_type \<Rightarrow> fault + (stack_type \<times> 'a stack_pool \<times> string list)" where
  "pop_checked p x =
     (case check_index x Pop of
        Inl s \<Rightarrow> Inr (1, p, [message s])
      | Inr _ \<Rightarrow>
         (case pop p x of
            Inl f \<Rightarrow> Inl f
          | Inr (h, p') \<Rightarrow> Inr (h, p', [])))"

section \<open>Chains\<close>

text \<open>
  \<open>path p x xs z\<close>: following \<open>next\<close> from the handle \<open>x\<close> visits exactly the handles
  \<open>xs\<close>, each of them a non-sentinel handle whose node is in storage, and then arrives at
  \<open>z\<close>. A chain is a path to the sentinel; a handle has one \<open>next\<close>, so a chain is acyclic
  and its list of handles is determined by its head.
\<close>

fun path :: "'a stack_pool \<Rightarrow> stack_type \<Rightarrow> stack_type list \<Rightarrow> stack_type \<Rightarrow> bool" where
  "path p x [] z = (x = z)"
| "path p x (y # ys) z =
     (x = y \<and> y \<noteq> 0 \<and> (case next_at p y of Inl f \<Rightarrow> False | Inr n \<Rightarrow> path p n ys z))"

definition chain :: "'a stack_pool \<Rightarrow> stack_type \<Rightarrow> stack_type list \<Rightarrow> bool" where
  "chain p x xs = path p x xs 0"

text \<open>The values stored at a list of handles.\<close>

definition values_at :: "'a stack_pool \<Rightarrow> stack_type list \<Rightarrow> 'a list" where
  "values_at p xs = map (\<lambda>h. value_n (pool p ! unat (h - 1))) xs"

text \<open>The handles \<open>1..=len\<close> of the allocated storage positions.\<close>

definition allocated :: "'a stack_pool \<Rightarrow> stack_type set" where
  "allocated p = {h. h \<noteq> 0 \<and> unat h \<le> length (pool p)}"

text \<open>
  Invariant I2 for a pool and the handles its callers hold: the chains of the held handles
  and the free list are pairwise disjoint, without repetition, and together they are the
  allocated handles.
\<close>

definition partitioned ::
  "'a stack_pool \<Rightarrow> stack_type list \<Rightarrow> stack_type list list \<Rightarrow> stack_type list \<Rightarrow> bool" where
  "partitioned p roots css fs =
     (list_all2 (chain p) roots css \<and> chain p (free_nodes p) fs \<and>
      distinct (concat css @ fs) \<and> set (concat css @ fs) = allocated p)"

definition I2 :: "'a stack_pool \<Rightarrow> stack_type list \<Rightarrow> bool" where
  "I2 p roots = (\<exists>css fs. partitioned p roots css fs)"

text \<open>The driver's \<open>l = pool.push(v, l)\<close> repeated over a list of values.\<close>

fun push_all ::
  "'a stack_pool \<Rightarrow> stack_type \<Rightarrow> 'a list \<Rightarrow> fault + (stack_type \<times> 'a stack_pool)" where
  "push_all p h [] = Inr (h, p)"
| "push_all p h (v # vs) =
     (case push p v h of Inl f \<Rightarrow> Inl f | Inr (h', p') \<Rightarrow> push_all p' h' vs)"

section \<open>Accessors after a write\<close>

lemma handle_pos_inj: "unat (x - 1) = unat (y - 1) \<longleftrightarrow> x = (y::stack_type)"
  by (simp add: word_unat_eq_iff [symmetric])

lemma node_set_next:
  "set_next p z n = Inr p' \<Longrightarrow>
   node p' y = (if y = z then Inr ((pool p ! unat (z - 1))\<lparr>next_n := n\<rparr>) else node p y)"
  by (auto simp: set_next_def node_def Let_def handle_pos_inj split: if_splits)

lemma node_set_value:
  "set_value p z v = Inr p' \<Longrightarrow>
   node p' y = (if y = z then Inr ((pool p ! unat (z - 1))\<lparr>value_n := v\<rparr>) else node p y)"
  by (auto simp: set_value_def node_def Let_def handle_pos_inj split: if_splits)

lemma next_at_set_next:
  "set_next p z n = Inr p' \<Longrightarrow> next_at p' y = (if y = z then Inr n else next_at p y)"
  by (simp add: next_at_def node_set_next)

lemma value_at_set_next:
  "set_next p z n = Inr p' \<Longrightarrow> value_at p' y = value_at p y"
  by (auto simp: value_at_def node_def set_next_def Let_def nth_list_update split: if_splits)

lemma next_at_set_value:
  "set_value p z v = Inr p' \<Longrightarrow> next_at p' y = next_at p y"
  by (auto simp: next_at_def node_def set_value_def Let_def nth_list_update split: if_splits)

lemma value_at_set_value:
  "set_value p z v = Inr p' \<Longrightarrow> value_at p' y = (if y = z then Inr v else value_at p y)"
  by (simp add: value_at_def node_set_value)

lemma set_next_fields:
  "set_next p z n = Inr p' \<Longrightarrow>
   length (pool p') = length (pool p) \<and> cap p' = cap p \<and> free_nodes p' = free_nodes p"
  by (auto simp: set_next_def Let_def split: if_splits)

lemma set_value_fields:
  "set_value p z v = Inr p' \<Longrightarrow>
   length (pool p') = length (pool p) \<and> cap p' = cap p \<and> free_nodes p' = free_nodes p"
  by (auto simp: set_value_def Let_def split: if_splits)

lemma set_next_ok:
  "next_at p z = Inr m \<Longrightarrow>
   set_next p z n = Inr (p\<lparr>pool := (pool p)[unat (z - 1) := (pool p ! unat (z - 1))\<lparr>next_n := n\<rparr>]\<rparr>)"
  by (auto simp: set_next_def next_at_def node_def Let_def split: if_splits)

lemma set_value_ok:
  "next_at p z = Inr m \<Longrightarrow>
   set_value p z v = Inr (p\<lparr>pool := (pool p)[unat (z - 1) := (pool p ! unat (z - 1))\<lparr>value_n := v\<rparr>]\<rparr>)"
  by (auto simp: set_value_def next_at_def node_def Let_def split: if_splits)

lemma next_at_free_nodes_update [simp]: "next_at (p\<lparr>free_nodes := f\<rparr>) y = next_at p y"
  by (simp add: next_at_def node_def Let_def)

lemma value_at_free_nodes_update [simp]: "value_at (p\<lparr>free_nodes := f\<rparr>) y = value_at p y"
  by (simp add: value_at_def node_def Let_def)

lemma next_at_allocated: "y \<noteq> 0 \<Longrightarrow> next_at p y = Inr n \<Longrightarrow> y \<in> allocated p"
  by (auto simp: next_at_def node_def allocated_def Let_def unat_minus_one split: if_splits)

lemma allocated_next_at: "y \<in> allocated p \<Longrightarrow> \<exists>n. next_at p y = Inr n"
proof -
  assume "y \<in> allocated p"
  then have "y \<noteq> 0" and le: "unat y \<le> length (pool p)"
    by (simp_all add: allocated_def)
  then have "0 < unat y" by (simp add: unat_gt_0)
  with le \<open>y \<noteq> 0\<close> have "unat (y - 1) < length (pool p)"
    by (simp add: unat_minus_one)
  then show ?thesis by (simp add: next_at_def node_def)
qed

lemma next_at_value_at:
  "next_at p y = Inr n \<Longrightarrow> value_at p y = Inr (value_n (pool p ! unat (y - 1)))"
  by (auto simp: next_at_def value_at_def node_def Let_def split: if_splits)

subsection \<open>Paths and chains\<close>

lemma path_frame:
  "\<forall>y\<in>set xs. next_at p' y = next_at p y \<Longrightarrow> path p' x xs z = path p x xs z"
  by (induction xs arbitrary: x) (auto split: sum.splits)

lemma chain_frame:
  "\<forall>y\<in>set xs. next_at p' y = next_at p y \<Longrightarrow> chain p' x xs = chain p x xs"
  by (simp add: chain_def path_frame)

lemma chain_Nil [simp]: "chain p x [] = (x = 0)"
  by (simp add: chain_def)

lemma chain_Cons:
  "chain p x (y # ys) =
     (x = y \<and> y \<noteq> 0 \<and> (\<exists>n. next_at p y = Inr n \<and> chain p n ys))"
  by (auto simp: chain_def split: sum.splits)

lemma path_allocated: "path p x xs z \<Longrightarrow> set xs \<subseteq> allocated p"
  by (induction xs arbitrary: x) (auto split: sum.splits dest: next_at_allocated)

lemma chain_allocated: "chain p x xs \<Longrightarrow> set xs \<subseteq> allocated p"
  by (simp add: chain_def path_allocated)

lemma chain_unique: "chain p x xs \<Longrightarrow> chain p x ys \<Longrightarrow> xs = ys"
proof (induction xs arbitrary: x ys)
  case Nil
  then show ?case by (cases ys) (auto simp: chain_Cons)
next
  case (Cons a xs)
  then show ?case by (cases ys) (auto simp: chain_Cons)
qed

lemma path_append:
  "path p x (xs @ ys) z = (\<exists>m. path p x xs m \<and> path p m ys z)"
  by (induction xs arbitrary: x) (auto split: sum.splits)

lemma chain_head_notin_tail:
  assumes "chain p x (y # ys)" shows "y \<notin> set ys"
proof
  assume "y \<in> set ys"
  then obtain as bs where ys: "ys = as @ y # bs"
    by (auto simp: in_set_conv_decomp)
  from assms have "chain p y ((y # as) @ y # bs)"
    by (simp add: ys chain_Cons)
  then obtain m where "path p m (y # bs) 0"
    unfolding chain_def path_append by blast
  then have "chain p y (y # bs)" by (auto simp: chain_def)
  moreover from assms have "chain p y (y # ys)" by (simp add: chain_Cons)
  ultimately have "y # bs = y # ys" by (rule chain_unique)
  then show False by (simp add: ys)
qed

lemma chain_distinct: "chain p x xs \<Longrightarrow> distinct xs"
proof (induction xs arbitrary: x)
  case Nil
  then show ?case by simp
next
  case (Cons a xs)
  from Cons.prems have "a \<notin> set xs" by (rule chain_head_notin_tail)
  moreover from Cons.prems obtain n where "chain p n xs" by (auto simp: chain_Cons)
  then have "distinct xs" by (rule Cons.IH)
  ultimately show ?case by simp
qed


section \<open>The loops on a chain\<close>

lemma print_loop_chain:
  "chain p x xs \<Longrightarrow>
   print_loop p \<lparr>it_pool = t, stack_index = x\<rparr> (end_it t' y) out =
     Some (Inr (out @ values_at p xs))"
proof (induction xs arbitrary: x out)
  case Nil
  then show ?case
    by (subst print_loop.simps) (simp add: it_neq_def it_eq_def end_it_def end_stack_def values_at_def)
next
  case (Cons a xs)
  from Cons.prems obtain n where a: "x = a" "a \<noteq> 0" "next_at p a = Inr n" "chain p n xs"
    by (auto simp: chain_Cons)
  have "print_loop p \<lparr>it_pool = t, stack_index = a\<rparr> (end_it t' y) out =
        print_loop p \<lparr>it_pool = t, stack_index = n\<rparr> (end_it t' y) (out @ [value_n (pool p ! unat (a - 1))])"
    using a
    by (subst print_loop.simps)
       (simp add: it_neq_def it_eq_def end_it_def end_stack_def it_deref_def it_incr_def
                  next_at_value_at)
  also have "\<dots> = Some (Inr ((out @ [value_n (pool p ! unat (a - 1))]) @ values_at p xs))"
    using a(4) by (rule Cons.IH)
  finally show ?case using a by (simp add: values_at_def)
qed

lemma print_stack_chain:
  "chain p x xs \<Longrightarrow> print_stack t p x = Some (Inr (values_at p xs))"
  by (simp add: print_stack_def begin_it_def print_loop_chain)

lemma free_stack_loop_chain:
  "chain p y (y # ys) \<Longrightarrow> next_at p y = Inr n \<Longrightarrow>
   free_stack_loop p \<lparr>it_pool = t, stack_index = n\<rparr> (end_it t' z) y = Some (Inr (last (y # ys)))"
proof (induction ys arbitrary: y n)
  case Nil
  then show ?case
    by (subst free_stack_loop.simps)
       (auto simp: chain_Cons it_neq_def it_eq_def end_it_def end_stack_def)
next
  case (Cons a ys)
  from Cons.prems obtain m where a: "n = a" "a \<noteq> 0" "next_at p a = Inr m" "chain p a (a # ys)"
    by (auto simp: chain_Cons)
  have "free_stack_loop p \<lparr>it_pool = t, stack_index = n\<rparr> (end_it t' z) y =
        free_stack_loop p \<lparr>it_pool = t, stack_index = m\<rparr> (end_it t' z) a"
    using a Cons.prems(2)
    by (subst free_stack_loop.simps)
       (simp add: it_neq_def it_eq_def end_it_def end_stack_def it_incr_def)
  also have "\<dots> = Some (Inr (last (a # ys)))"
    using a(4) a(3) by (rule Cons.IH)
  finally show ?case by simp
qed

lemma chain_last_next:
  "chain p x xs \<Longrightarrow> xs \<noteq> [] \<Longrightarrow> next_at p (last xs) = Inr 0"
  by (induction xs arbitrary: x) (auto simp: chain_Cons)

lemma path_splice:
  "path p x xs z \<Longrightarrow> xs \<noteq> [] \<Longrightarrow> distinct xs \<Longrightarrow> set_next p (last xs) f = Inr p' \<Longrightarrow>
   path p' x xs f"
proof (induction xs arbitrary: x)
  case Nil
  then show ?case by simp
next
  case (Cons a xs)
  show ?case
  proof (cases "xs = []")
    case True
    with Cons.prems show ?thesis
      by (auto simp: next_at_set_next split: sum.splits)
  next
    case False
    with Cons.prems have ne: "a \<noteq> last xs" by auto
    from Cons.prems obtain n where n: "x = a" "a \<noteq> 0" "next_at p a = Inr n" "path p n xs z"
      by (auto split: sum.splits)
    from Cons.prems False have "set_next p (last xs) f = Inr p'" by simp
    with n(4) False Cons.prems(3) have "path p' n xs f"
      by (intro Cons.IH) auto
    moreover have "next_at p' a = Inr n"
      using Cons.prems(4) False ne n(3) by (simp add: next_at_set_next)
    ultimately show ?thesis using n by simp
  qed
qed

text \<open>\<open>free_stack\<close> on a non-empty chain returns, and rewrites one \<open>next\<close> field.\<close>

lemma free_stack_chain:
  assumes "chain p x xs" "xs \<noteq> []"
  shows "free_stack t p x =
     Some (Inr (0, p\<lparr>pool := (pool p)[unat (last xs - 1) := (pool p ! unat (last xs - 1))\<lparr>next_n := free_nodes p\<rparr>],
                      free_nodes := x\<rparr>))"
proof -
  from assms obtain ys where xs: "xs = x # ys" by (cases xs) (auto simp: chain_Cons)
  from assms xs obtain n where n: "x \<noteq> 0" "next_at p x = Inr n" "chain p x (x # ys)"
    by (auto simp: chain_Cons)
  have loop: "free_stack_loop p (begin_it t n) (end_it t 0) x = Some (Inr (last xs))"
    unfolding begin_it_def xs using n(3) n(2) by (rule free_stack_loop_chain)
  have "next_at p (last xs) = Inr 0" using assms by (rule chain_last_next)
  then have "set_next p (last xs) (free_nodes p) =
     Inr (p\<lparr>pool := (pool p)[unat (last xs - 1) := (pool p ! unat (last xs - 1))\<lparr>next_n := free_nodes p\<rparr>]\<rparr>)"
    by (rule set_next_ok)
  with loop n(2) show ?thesis
    by (simp add: free_stack_def end_stack_def)
qed


section \<open>The effect of \<open>push\<close> and \<open>pop\<close>\<close>

lemma value_at_allocated:
  "y \<in> allocated p \<Longrightarrow> value_at p y = Inr (value_n (pool p ! unat (y - 1)))"
  using allocated_next_at [of y p] by (auto dest: next_at_value_at)

lemma values_at_frame:
  "set xs \<subseteq> allocated p \<Longrightarrow> set xs \<subseteq> allocated p' \<Longrightarrow>
   \<forall>y\<in>set xs. value_at p' y = value_at p y \<Longrightarrow> values_at p' xs = values_at p xs"
  by (induction xs) (auto simp: values_at_def value_at_allocated)

lemma node_overwrite:
  "(nd :: 'a node_t)\<lparr>value_n := v, next_n := h\<rparr> = \<lparr>value_n = v, next_n = h\<rparr>"
  by (cases nd) simp

lemma push_recycle:
  assumes "free_nodes p \<noteq> 0" "next_at p (free_nodes p) = Inr n"
  shows "push p v h =
     Inr (free_nodes p,
          p\<lparr>pool := (pool p)[unat (free_nodes p - 1) := \<lparr>value_n = v, next_n = h\<rparr>],
            free_nodes := n\<rparr>)"
proof -
  from assms(2) have "unat (free_nodes p - 1) < length (pool p)"
    by (auto simp: next_at_def node_def Let_def split: if_splits)
  with assms show ?thesis
    by (simp add: push_def empty_stack_def end_stack_def set_value_def set_next_def Let_def
                  node_overwrite)
qed

lemma push_append:
  assumes "free_nodes p = 0"
  shows "push p v h =
     Inr (of_nat (Suc (length (pool p))), push_back \<lparr>value_n = v, next_n = h\<rparr> p)"
  using assms
  by (simp add: push_def empty_stack_def end_stack_def Let_def push_back_def)

lemma new_handle:
  assumes "Suc n < 2 ^ 64"
  shows "(of_nat (Suc n) :: stack_type) \<noteq> 0" and "unat (of_nat (Suc n) :: stack_type) = Suc n"
    and "unat ((of_nat (Suc n) :: stack_type) - 1) = n"
proof -
  show u: "unat (of_nat (Suc n) :: stack_type) = Suc n"
    using assms by (simp add: unat_of_nat del: of_nat_Suc)
  then show nz: "(of_nat (Suc n) :: stack_type) \<noteq> 0"
    by (metis Zero_not_Suc unat_0)
  show "unat ((of_nat (Suc n) :: stack_type) - 1) = n"
    using u nz by (simp add: unat_minus_one del: of_nat_Suc)
qed

lemma push_effect:
  assumes "free_nodes p = 0 \<or> free_nodes p \<in> allocated p" and "Suc (length (pool p)) < 2 ^ 64"
  shows "\<exists>h' p'. push p v h = Inr (h', p') \<and> h' \<noteq> 0 \<and>
           h' = (if free_nodes p = 0 then of_nat (Suc (length (pool p))) else free_nodes p) \<and>
           (\<forall>y. next_at p' y = (if y = h' then Inr h else next_at p y)) \<and>
           (\<forall>y. value_at p' y = (if y = h' then Inr v else value_at p y)) \<and>
           allocated p' = insert h' (allocated p) \<and>
           (free_nodes p \<noteq> 0 \<longrightarrow> next_at p (free_nodes p) = Inr (free_nodes p') \<and>
                length (pool p') = length (pool p) \<and> cap p' = cap p) \<and>
           (free_nodes p = 0 \<longrightarrow> free_nodes p' = 0 \<and> h' \<notin> allocated p \<and>
                length (pool p') = Suc (length (pool p)))"
proof (cases "free_nodes p = 0")
  case True
  let ?h = "of_nat (Suc (length (pool p))) :: stack_type"
  let ?p = "push_back \<lparr>value_n = v, next_n = h\<rparr> p"
  note nh = new_handle [OF assms(2)]
  have pool: "pool ?p = pool p @ [\<lparr>value_n = v, next_n = h\<rparr>]" and fr: "free_nodes ?p = free_nodes p"
    by (simp_all add: push_back_def)
  have pos: "\<And>y. unat (y - 1) = length (pool p) \<longleftrightarrow> y = ?h"
    using nh(3) by (metis handle_pos_inj)
  have node: "\<And>y. node ?p y = (if y = ?h then Inr \<lparr>value_n = v, next_n = h\<rparr> else node p y)"
  proof -
    fix y
    show "node ?p y = (if y = ?h then Inr \<lparr>value_n = v, next_n = h\<rparr> else node p y)"
    proof (cases "y = ?h")
      case True
      then show ?thesis
        using nh(3) by (simp add: node_def pool Let_def del: of_nat_Suc)
    next
      case False
      then have "unat (y - 1) \<noteq> length (pool p)" using pos by simp
      then show ?thesis
        using False by (auto simp: node_def pool Let_def nth_append simp del: of_nat_Suc)
    qed
  qed
  have alloc: "allocated ?p = insert ?h (allocated p)"
  proof -
    have "\<And>y::stack_type. unat y = Suc (length (pool p)) \<longleftrightarrow> y = ?h"
      using nh(2) by (metis word_unat_eq_iff)
    then show ?thesis
      using nh(1) by (auto simp: allocated_def pool le_Suc_eq simp del: of_nat_Suc)
  qed
  have notin: "?h \<notin> allocated p"
    using nh(2) by (simp add: allocated_def del: of_nat_Suc)
  show ?thesis
    using True nh(1) alloc notin
    by (simp add: push_append next_at_def value_at_def node pool fr del: of_nat_Suc)
next
  case False
  with assms(1) have al: "free_nodes p \<in> allocated p" by simp
  then obtain n where n: "next_at p (free_nodes p) = Inr n"
    using allocated_next_at by blast
  let ?i = "unat (free_nodes p - 1)"
  let ?p = "p\<lparr>pool := (pool p)[?i := \<lparr>value_n = v, next_n = h\<rparr>], free_nodes := n\<rparr>"
  from n have i: "?i < length (pool p)"
    by (auto simp: next_at_def node_def Let_def split: if_splits)
  have node: "\<And>y. node ?p y = (if y = free_nodes p then Inr \<lparr>value_n = v, next_n = h\<rparr> else node p y)"
    using i by (auto simp: node_def Let_def handle_pos_inj)
  have alloc: "allocated ?p = insert (free_nodes p) (allocated p)"
    using al by (auto simp: allocated_def)
  show ?thesis
    using False n alloc
    by (simp add: push_recycle [OF False n] next_at_def value_at_def node)
qed


lemma pop_nonempty:
  assumes "x \<noteq> 0" "next_at p x = Inr n"
  shows "pop p x =
     Inr (n, p\<lparr>pool := (pool p)[unat (x - 1) := (pool p ! unat (x - 1))\<lparr>next_n := free_nodes p\<rparr>],
               free_nodes := x\<rparr>)"
  using assms
  by (simp add: pop_def empty_stack_def end_stack_def free_node_def Let_def
                set_next_ok [OF assms(2)])

lemma pop_effect:
  assumes "x \<noteq> 0" "next_at p x = Inr n"
  shows "\<exists>p'. pop p x = Inr (n, p') \<and> free_nodes p' = x \<and>
           (\<forall>y. next_at p' y = (if y = x then Inr (free_nodes p) else next_at p y)) \<and>
           (\<forall>y. value_at p' y = value_at p y) \<and>
           length (pool p') = length (pool p) \<and> cap p' = cap p \<and> allocated p' = allocated p"
proof -
  let ?q = "p\<lparr>pool := (pool p)[unat (x - 1) := (pool p ! unat (x - 1))\<lparr>next_n := free_nodes p\<rparr>]\<rparr>"
  have sn: "set_next p x (free_nodes p) = Inr ?q"
    using assms(2) by (rule set_next_ok)
  have "pop p x = Inr (n, ?q\<lparr>free_nodes := x\<rparr>)"
    using pop_nonempty [OF assms] by simp
  moreover have "\<forall>y. next_at (?q\<lparr>free_nodes := x\<rparr>) y = (if y = x then Inr (free_nodes p) else next_at p y)"
    using next_at_set_next [OF sn] by simp
  moreover have "\<forall>y. value_at (?q\<lparr>free_nodes := x\<rparr>) y = value_at p y"
    using value_at_set_next [OF sn] by simp
  moreover have "allocated (?q\<lparr>free_nodes := x\<rparr>) = allocated p"
    by (simp add: allocated_def)
  ultimately show ?thesis by simp
qed

section \<open>Recycling\<close>

text \<open>
  Claim C1. \<open>push(v, head)\<close> with a non-empty free list whose head node is in storage takes
  that node off the free list (the free head becomes the node's old \<open>next\<close>), overwrites the
  node with \<open>{v, head}\<close> in place and returns its handle; storage does not grow. With an
  empty free list it appends \<open>{v, head}\<close> to storage and returns the new storage length.
  Hence the free list is last-in first-out: after \<open>pop(x)\<close> or \<open>free_stack(y)\<close> on a
  non-sentinel handle, the next \<open>push\<close> returns that very handle and leaves the storage length
  and the capacity as they were before the node was freed.
\<close>

theorem push_reuses_free_head_else_appends:
  "(free_nodes p \<noteq> 0 \<and> next_at p (free_nodes p) = Inr n \<longrightarrow>
      push p v head =
        Inr (free_nodes p,
             p\<lparr>pool := (pool p)[unat (free_nodes p - 1) := \<lparr>value_n = v, next_n = head\<rparr>],
               free_nodes := n\<rparr>)) \<and>
   (free_nodes q = 0 \<longrightarrow>
      push q v head =
        Inr (of_nat (length (pool q) + 1),
             (push_back \<lparr>value_n = v, next_n = head\<rparr> q)
               \<lparr>pool := pool q @ [\<lparr>value_n = v, next_n = head\<rparr>], free_nodes := 0\<rparr>)) \<and>
   (x \<noteq> 0 \<and> pop r x = Inr (h, r1) \<longrightarrow>
      (\<exists>r2. push r1 v head = Inr (x, r2) \<and> length (pool r2) = length (pool r) \<and>
            capacity r2 = capacity r)) \<and>
   (y \<noteq> 0 \<and> free_stack t s y = Some (Inr (h', s1)) \<longrightarrow>
      (\<exists>s2. push s1 v head = Inr (y, s2) \<and> length (pool s2) = length (pool s) \<and>
            capacity s2 = capacity s))"
proof (intro conjI impI)
  assume "free_nodes p \<noteq> 0 \<and> next_at p (free_nodes p) = Inr n"
  then show "push p v head =
        Inr (free_nodes p,
             p\<lparr>pool := (pool p)[unat (free_nodes p - 1) := \<lparr>value_n = v, next_n = head\<rparr>],
               free_nodes := n\<rparr>)"
    by (simp add: push_recycle)
next
  assume "free_nodes q = 0"
  then show "push q v head =
        Inr (of_nat (length (pool q) + 1),
             (push_back \<lparr>value_n = v, next_n = head\<rparr> q)
               \<lparr>pool := pool q @ [\<lparr>value_n = v, next_n = head\<rparr>], free_nodes := 0\<rparr>)"
    by (simp add: push_append push_back_def)
next
  assume a: "x \<noteq> 0 \<and> pop r x = Inr (h, r1)"
  then obtain m where m: "next_at r x = Inr m"
    by (auto simp: pop_def empty_stack_def end_stack_def split: sum.splits)
  from pop_effect [OF _ m] a obtain
    r1: "free_nodes r1 = x" "next_at r1 x = Inr (free_nodes r)"
        "length (pool r1) = length (pool r)" "cap r1 = cap r"
    by auto
  from a r1(1) have "free_nodes r1 \<noteq> 0" by simp
  from push_recycle [OF this, of "free_nodes r" v head] r1
  show "\<exists>r2. push r1 v head = Inr (x, r2) \<and> length (pool r2) = length (pool r) \<and>
            capacity r2 = capacity r"
    by (simp add: capacity_def)
next
  assume a: "y \<noteq> 0 \<and> free_stack t s y = Some (Inr (h', s1))"
  then obtain m z s' where m: "next_at s y = Inr m" and s': "set_next s z (free_nodes s) = Inr s'"
    and s1: "s1 = s'\<lparr>free_nodes := y\<rparr>"
    by (auto simp: free_stack_def split: sum.splits option.splits)
  have "\<exists>k. next_at s1 y = Inr k"
    using m next_at_set_next [OF s', of y] by (cases "y = z") (simp_all add: s1)
  then obtain k where k: "next_at s1 y = Inr k" ..
  have "free_nodes s1 \<noteq> 0" using a s1 by simp
  from push_recycle [OF this, of k v head] k set_next_fields [OF s']
  show "\<exists>s2. push s1 v head = Inr (y, s2) \<and> length (pool s2) = length (pool s) \<and>
            capacity s2 = capacity s"
    by (simp add: s1 capacity_def)
qed


text \<open>
  The four hypotheses of C1 hold on two-node pools: a push that recycles node 2, a push on a
  fresh pool that appends node 1, and a push after \<open>pop(2)\<close> and after \<open>free_stack(2)\<close>.
\<close>

theorem push_reuses_free_head_else_appends_witness:
  "next_at \<lparr>pool = [\<lparr>value_n = 10::int, next_n = 0\<rparr>, \<lparr>value_n = 20, next_n = 0\<rparr>], cap = 4,
             free_nodes = 2\<rparr> 2 = Inr 0 \<and>
   push \<lparr>pool = [\<lparr>value_n = 10::int, next_n = 0\<rparr>, \<lparr>value_n = 20, next_n = 0\<rparr>], cap = 4,
          free_nodes = 2\<rparr> (7::int) 1 =
     Inr (2, \<lparr>pool = [\<lparr>value_n = 10::int, next_n = 0\<rparr>, \<lparr>value_n = 7, next_n = 1\<rparr>], cap = 4,
              free_nodes = 0\<rparr>) \<and>
   push (stack_pool_n 4) (7::int) 1 =
     Inr (1, \<lparr>pool = [\<lparr>value_n = 7, next_n = 1\<rparr>], cap = 4, free_nodes = 0\<rparr>) \<and>
   pop \<lparr>pool = [\<lparr>value_n = 10::int, next_n = 0\<rparr>, \<lparr>value_n = 20, next_n = 1\<rparr>], cap = 4,
         free_nodes = 0\<rparr> 2 =
     Inr (1, \<lparr>pool = [\<lparr>value_n = 10::int, next_n = 0\<rparr>, \<lparr>value_n = 20, next_n = 0\<rparr>], cap = 4,
              free_nodes = 2\<rparr>) \<and>
   (\<exists>r2. push \<lparr>pool = [\<lparr>value_n = 10::int, next_n = 0\<rparr>, \<lparr>value_n = 20, next_n = 0\<rparr>], cap = 4,
                 free_nodes = 2\<rparr> (7::int) 1 = Inr (2, r2) \<and>
         length (pool r2) = 2 \<and> capacity r2 = 4) \<and>
   free_stack 0 \<lparr>pool = [\<lparr>value_n = 10::int, next_n = 0\<rparr>, \<lparr>value_n = 20, next_n = 1\<rparr>], cap = 4,
                  free_nodes = 0\<rparr> 2 =
     Some (Inr (0, \<lparr>pool = [\<lparr>value_n = 10::int, next_n = 0\<rparr>, \<lparr>value_n = 20, next_n = 1\<rparr>],
                     cap = 4, free_nodes = 2\<rparr>)) \<and>
   (\<exists>s2. push \<lparr>pool = [\<lparr>value_n = 10::int, next_n = 0\<rparr>, \<lparr>value_n = 20, next_n = 1\<rparr>], cap = 4,
                 free_nodes = 2\<rparr> (7::int) 1 = Inr (2, s2) \<and>
         length (pool s2) = 2 \<and> capacity s2 = 4)"
proof -
  let ?P = "\<lparr>pool = [\<lparr>value_n = 10::int, next_n = 0\<rparr>, \<lparr>value_n = 20, next_n = 0\<rparr>], cap = 4,
             free_nodes = 2\<rparr>"
  let ?R = "\<lparr>pool = [\<lparr>value_n = 10::int, next_n = 0\<rparr>, \<lparr>value_n = 20, next_n = 1\<rparr>], cap = 4,
             free_nodes = 0\<rparr>"
  let ?S1 = "\<lparr>pool = [\<lparr>value_n = 10::int, next_n = 0\<rparr>, \<lparr>value_n = 20, next_n = 1\<rparr>], cap = 4,
             free_nodes = 2\<rparr>"
  have a: "next_at ?P 2 = Inr 0"
    by (simp add: next_at_def node_def)
  have b: "free_nodes (stack_pool_n 4 :: int stack_pool) = 0"
    by (simp add: stack_pool_n_def vector_reserve_def)
  have c: "pop ?R 2 = Inr (1, ?P)"
    by (simp add: pop_def empty_stack_def end_stack_def next_at_def node_def free_node_def
                  set_next_def)
  have d: "free_stack 0 ?R 2 = Some (Inr (0, ?S1))"
    by (simp add: free_stack_def free_stack_loop.simps next_at_def node_def set_next_def
                  begin_it_def end_it_def end_stack_def it_neq_def it_eq_def it_incr_def)
  show ?thesis
    using push_reuses_free_head_else_appends
      [where p = "?P" and n = 0 and v = 7 and head = 1 and q = "stack_pool_n 4"
         and x = 2 and r = "?R" and h = 1 and ?r1.0 = "?P"
         and y = 2 and t = 0 and s = "?R" and h' = 0 and ?s1.0 = "?S1"]
      a b c d
    by (simp add: stack_pool_n_def vector_reserve_def push_back_def capacity_def numeral_2_eq_2)
qed


section \<open>The sentinel handle, validation, iterators and capacity\<close>

lemma to_string_0: "to_string 0 = ''0''"
  by (simp add: to_string.simps digit_char_def)

lemma check_index_push: "check_index x Push = Inr ()"
  by (simp add: check_index_def end_stack_def)

lemma check_index_pop:
  "check_index x Pop =
     (if x = 0 then Inl (Index_invalid (''You provided an invalid index: '' @ to_string (unat x)))
      else Inr ())"
  by (simp add: check_index_def end_stack_def)

lemma capacity_reserved: "n \<le> capacity (stack_pool_n n)"
  by (simp add: capacity_def stack_pool_n_def vector_reserve_def)

text \<open>
  Claim C2, as amended. \<open>pop(0)\<close> changes neither storage nor the free head in any variant.
  In the header and in \<open>first_impl.cpp\<close> (the same body) it returns 0. In the validated
  variant \<open>check_index\<close> rejects handle 0 for \<open>pop\<close>: the error is caught inside \<open>pop\<close>, its
  message goes to \<open>std::cerr\<close>, and \<open>pop\<close> returns 1.
\<close>

theorem pop_sentinel_no_mutation:
  "pop p 0 = Inr (0, p) \<and>
   check_index 0 Pop = Inl (Index_invalid ''You provided an invalid index: 0'') \<and>
   pop_checked p 0 = Inr (1, p, [''You provided an invalid index: 0''])"
  by (simp add: pop_def empty_stack_def end_stack_def pop_checked_def check_index_pop to_string_0)

text \<open>
  Claim C2 as stated fails in the validated variant: on a freshly constructed pool
  \<open>pop(0)\<close> returns 1, not 0.
\<close>

theorem pop_sentinel_validated_counterexample:
  "pop_checked (stack_pool_default :: int stack_pool) 0 =
     Inr (1, stack_pool_default, [''You provided an invalid index: 0''])"
  by (simp add: pop_checked_def check_index_pop to_string_0)

text \<open>
  Claim C7, as amended. The check that the validated \<open>_push\<close> runs on its head handle is
  \<open>head < 0\<close> in an unsigned type: it raises for no handle at all. The validated push
  therefore is the header's push on every input, writes nothing to \<open>std::cerr\<close>, and the
  check itself changes nothing.
\<close>

theorem push_check_never_rejects:
  "check_index head Push = Inr () \<and>
   push_checked p v head =
     (case push p v head of Inl f \<Rightarrow> Inl f | Inr (h, p') \<Rightarrow> Inr (h, p', []))"
  by (simp add: push_checked_def check_index_push)

text \<open>
  Claim C7 as stated fails: on an empty pool the handle 57 is neither the sentinel nor the
  top of any chain, yet \<open>check_index\<close> accepts it and the push appends a node whose \<open>next\<close>
  is 57.
\<close>

theorem push_invalid_head_counterexample:
  "check_index 57 Push = Inr () \<and>
   push_checked (stack_pool_default :: int stack_pool) 7 57 =
     Inr (1, \<lparr>pool = [\<lparr>value_n = 7, next_n = 57\<rparr>], cap = 1, free_nodes = 0\<rparr>, [])"
  by (simp add: push_checked_def check_index_push push_def stack_pool_default_def
                empty_stack_def end_stack_def push_back_def)

text \<open>
  Claim C8. Iterators of the header compare by their handles alone; \<open>end(x)\<close> holds the
  sentinel 0 whatever \<open>x\<close> is, so \<open>begin(0) == end(x)\<close>; and the traversal of the handle that
  \<open>new_stack()\<close> returns stops at once with no element visited.
\<close>

theorem iterator_equality_and_empty_traversal:
  "it_eq a b = (stack_index a = stack_index b) \<and>
   it_eq (begin_it this x) (begin_it this y) = (x = y) \<and>
   it_neq a b = (stack_index a \<noteq> stack_index b) \<and>
   stack_index (end_it this x) = 0 \<and>
   it_eq (begin_it this 0) (end_it this x) \<and>
   new_stack = 0 \<and>
   print_stack this p new_stack = Some (Inr [])"
  by (simp add: it_eq_def it_neq_def begin_it_def end_it_def end_stack_def new_stack_def
                print_stack_def print_loop.simps)

text \<open>
  Claim C9 at its failing input. A pool constructed with the hint 22 has reserved 22
  positions, and \<open>capacity()\<close> of the header and of the validated variant says so
  (\<open>capacity_reserved\<close> for every hint); \<open>capacity()\<close> of \<open>first_impl.cpp\<close> answers
  \<open>pool.size()\<close>, which is 0.
\<close>

theorem capacity_first_impl_is_size:
  "capacity_first (stack_pool_n 22 :: int stack_pool) = 0 \<and>
   capacity (stack_pool_n 22 :: int stack_pool) = 22"
  by (simp add: capacity_first_def capacity_def stack_pool_n_def vector_reserve_def)

text \<open>
  Claim C10, as amended. In the header, whose iterators carry handles, \<open>free_stack\<close> on a
  non-sentinel handle that heads a chain returns without any out-of-range access. On the
  sentinel its first statement reads \<open>next(0)\<close>, that is storage position \<open>2^64 - 1\<close>, outside
  any vector (a vector holds fewer than \<open>2^64\<close> nodes), in the header and in \<open>first_impl.cpp\<close>
  alike, whereas \<open>pop(0)\<close> returns 0 and touches nothing.
\<close>

theorem free_stack_in_range_only_for_nonempty:
  "(x \<noteq> 0 \<and> chain p x xs \<longrightarrow> (\<exists>p'. free_stack this p x = Some (Inr (0, p')))) \<and>
   (length (pool q) < 2 ^ 64 \<longrightarrow>
      next_at q 0 = Inl (OutOfRange (2 ^ 64 - 1)) \<and>
      free_stack this q 0 = Some (Inl (OutOfRange (2 ^ 64 - 1))) \<and>
      free_stack_first this q 0 = Some (Inl (OutOfRange (2 ^ 64 - 1))) \<and>
      pop q 0 = Inr (0, q))"
proof (intro conjI impI)
  assume a: "x \<noteq> 0 \<and> chain p x xs"
  then have "xs \<noteq> []" by auto
  with a have "chain p x xs" "xs \<noteq> []" by simp_all
  from free_stack_chain [OF this, of this]
  show "\<exists>p'. free_stack this p x = Some (Inr (0, p'))"
    by blast
next
  assume b: "length (pool q) < 2 ^ 64"
  have "unat (0 - 1 :: stack_type) = 2 ^ 64 - 1"
    by (simp add: unsigned_minus_1_eq_mask mask_eq_exp_minus_1)
  with b show n: "next_at q 0 = Inl (OutOfRange (2 ^ 64 - 1))"
    by (simp add: next_at_def node_def)
  then show "free_stack this q 0 = Some (Inl (OutOfRange (2 ^ 64 - 1)))"
    by (simp add: free_stack_def)
  from n show "free_stack_first this q 0 = Some (Inl (OutOfRange (2 ^ 64 - 1)))"
    by (simp add: free_stack_first_def)
  show "pop q 0 = Inr (0, q)"
    by (simp add: pop_def empty_stack_def end_stack_def)
qed

text \<open>
  On the two-node chain 2, 1 both hypotheses of C10 hold: the header's \<open>free_stack(2)\<close>
  returns, and \<open>free_stack(0)\<close> faults in both variants.
\<close>

theorem free_stack_in_range_only_for_nonempty_witness:
  "chain \<lparr>pool = [\<lparr>value_n = 10::int, next_n = 0\<rparr>, \<lparr>value_n = 20, next_n = 1\<rparr>], cap = 4,
           free_nodes = 0\<rparr> 2 [2, 1] \<and>
   (\<exists>p'. free_stack 0 \<lparr>pool = [\<lparr>value_n = 10::int, next_n = 0\<rparr>, \<lparr>value_n = 20, next_n = 1\<rparr>], cap = 4,
           free_nodes = 0\<rparr> 2 = Some (Inr (0, p'))) \<and>
   free_stack 0 \<lparr>pool = [\<lparr>value_n = 10::int, next_n = 0\<rparr>, \<lparr>value_n = 20, next_n = 1\<rparr>], cap = 4,
           free_nodes = 0\<rparr> 0 = Some (Inl (OutOfRange (2 ^ 64 - 1))) \<and>
   free_stack_first 0 \<lparr>pool = [\<lparr>value_n = 10::int, next_n = 0\<rparr>, \<lparr>value_n = 20, next_n = 1\<rparr>], cap = 4,
           free_nodes = 0\<rparr> 0 = Some (Inl (OutOfRange (2 ^ 64 - 1)))"
proof -
  let ?P = "\<lparr>pool = [\<lparr>value_n = 10::int, next_n = 0\<rparr>, \<lparr>value_n = 20, next_n = 1\<rparr>], cap = 4,
           free_nodes = 0\<rparr>"
  have c: "chain ?P 2 [2, 1]"
    by (simp add: chain_def next_at_def node_def)
  have l: "length (pool ?P) < 2 ^ 64" by simp
  show ?thesis
    using free_stack_in_range_only_for_nonempty
            [where x = 2 and p = "?P" and xs = "[2, 1]" and q = "?P" and this = 0] c l
    by simp
qed

text \<open>
  Claim C10 as stated fails in \<open>first_impl.cpp\<close>: 2 is a non-sentinel handle heading the
  chain 2, 1, yet \<open>free_stack(2)\<close> there addresses storage position \<open>2^64 - 1\<close>, when its
  loop test forms \<open>end(0)\<close>.
\<close>

theorem free_stack_first_impl_counterexample:
  "chain \<lparr>pool = [\<lparr>value_n = 10::int, next_n = 0\<rparr>, \<lparr>value_n = 20, next_n = 1\<rparr>], cap = 4,
           free_nodes = 0\<rparr> 2 [2, 1] \<and>
   free_stack_first 0 \<lparr>pool = [\<lparr>value_n = 10::int, next_n = 0\<rparr>, \<lparr>value_n = 20, next_n = 1\<rparr>], cap = 4,
           free_nodes = 0\<rparr> 2 = Some (Inl (OutOfRange (2 ^ 64 - 1)))"
proof -
  let ?P = "\<lparr>pool = [\<lparr>value_n = 10::int, next_n = 0\<rparr>, \<lparr>value_n = 20, next_n = 1\<rparr>], cap = 4,
           free_nodes = 0\<rparr>"
  have u: "unat (- 1 :: stack_type) = 2 ^ 64 - 1"
    by (simp add: unsigned_minus_1_eq_mask mask_eq_exp_minus_1)
  have c: "chain ?P 2 [2, 1]"
    by (simp add: chain_def next_at_def node_def)
  have n: "next_at ?P 2 = Inr 1"
    by (simp add: next_at_def node_def)
  have b: "begin_first 0 ?P 1 = Inr \<lparr>it_pool_first = 0, current = 0\<rparr>"
    by (simp add: begin_first_def node_addr_def)
  have e: "end_first 0 ?P 0 = Inl (OutOfRange (2 ^ 64 - 1))"
    by (simp add: end_first_def node_addr_def end_stack_def u)
  have "free_stack_loop_first 0 ?P \<lparr>it_pool_first = 0, current = 0\<rparr> 2 =
          Some (Inl (OutOfRange (2 ^ 64 - 1)))"
    by (subst free_stack_loop_first.simps) (simp add: e)
  with n b c show ?thesis
    by (simp add: free_stack_first_def)
qed


section \<open>Freeing a whole stack\<close>

lemma push_recycle_effect:
  assumes "free_nodes p \<noteq> 0" "next_at p (free_nodes p) = Inr n"
  shows "\<exists>p'. push p v h = Inr (free_nodes p, p') \<and> free_nodes p' = n \<and>
           (\<forall>y. next_at p' y = (if y = free_nodes p then Inr h else next_at p y)) \<and>
           length (pool p') = length (pool p) \<and> cap p' = cap p"
proof -
  let ?i = "unat (free_nodes p - 1)"
  let ?p = "p\<lparr>pool := (pool p)[?i := \<lparr>value_n = v, next_n = h\<rparr>], free_nodes := n\<rparr>"
  from assms(2) have i: "?i < length (pool p)"
    by (auto simp: next_at_def node_def Let_def split: if_splits)
  have "\<And>y. node ?p y = (if y = free_nodes p then Inr \<lparr>value_n = v, next_n = h\<rparr> else node p y)"
    using i by (auto simp: node_def Let_def handle_pos_inj)
  then show ?thesis
    by (simp add: push_recycle [OF assms] next_at_def)
qed

lemma push_all_recycles:
  "path p (free_nodes p) fs z \<Longrightarrow> distinct fs \<Longrightarrow> length vs \<le> length fs \<Longrightarrow>
   \<exists>h' p'. push_all p h vs = Inr (h', p') \<and> cap p' = cap p \<and>
           length (pool p') = length (pool p)"
proof (induction vs arbitrary: p h fs)
  case Nil
  then show ?case by simp
next
  case (Cons v vs)
  from Cons.prems(3) obtain f fs' where fs: "fs = f # fs'" by (cases fs) auto
  with Cons.prems(1) obtain n where
    f: "free_nodes p = f" "f \<noteq> 0" "next_at p f = Inr n" "path p n fs' z"
    by (auto split: sum.splits)
  from push_recycle_effect [of p n v h] f obtain p1 where
    p1: "push p v h = Inr (f, p1)" "free_nodes p1 = n"
        "\<forall>y. next_at p1 y = (if y = f then Inr h else next_at p y)"
        "length (pool p1) = length (pool p)" "cap p1 = cap p"
    by auto
  from Cons.prems(2) fs have nf: "f \<notin> set fs'" and d: "distinct fs'" by simp_all
  have "path p1 n fs' z"
    using f(4) nf p1(3) path_frame [of fs' p1 p n z] by auto
  then have "path p1 (free_nodes p1) fs' z" by (simp add: p1(2))
  moreover from Cons.prems(3) fs have "length vs \<le> length fs'" by simp
  ultimately obtain h' p' where
    "push_all p1 f vs = Inr (h', p')" "cap p' = cap p1" "length (pool p') = length (pool p1)"
    using Cons.IH [of p1 fs' f] d by blast
  with p1 show ?case by simp
qed

text \<open>
  Claim C3. On a non-empty chain \<open>xs\<close> headed by \<open>x\<close>, \<open>free_stack(x)\<close> returns the sentinel
  0. The pool it leaves differs from the old one in one \<open>next\<close> field, that of the chain's
  last node, which now holds the old free head, and in the free head, which is \<open>x\<close>: the
  whole chain leads from the new free head to the old one (and with a well-formed old free
  list \<open>fs\<close> apart from \<open>xs\<close>, the new free list is \<open>xs\<close> followed by \<open>fs\<close>). Capacity is
  unchanged, and as many pushes as the chain had nodes, threaded from any handle, all
  succeed without changing the capacity or the storage length.
\<close>

theorem free_stack_splices_chain:
  assumes "chain p x xs" and "x \<noteq> 0"
  shows "\<exists>p'. free_stack this p x = Some (Inr (0, p')) \<and>
           p' = p\<lparr>pool := (pool p)[unat (last xs - 1) :=
                           (pool p ! unat (last xs - 1))\<lparr>next_n := free_nodes p\<rparr>],
                  free_nodes := x\<rparr> \<and>
           free_nodes p' = x \<and> path p' x xs (free_nodes p) \<and>
           capacity p' = capacity p \<and>
           (\<forall>vs h. length vs = length xs \<longrightarrow>
              (\<exists>h' p''. push_all p' h vs = Inr (h', p'') \<and> capacity p'' = capacity p' \<and>
                        length (pool p'') = length (pool p'))) \<and>
           (\<forall>fs. chain p (free_nodes p) fs \<and> set xs \<inter> set fs = {} \<longrightarrow> chain p' x (xs @ fs))"
proof -
  let ?q = "p\<lparr>pool := (pool p)[unat (last xs - 1) :=
                           (pool p ! unat (last xs - 1))\<lparr>next_n := free_nodes p\<rparr>]\<rparr>"
  let ?p = "p\<lparr>pool := (pool p)[unat (last xs - 1) :=
                           (pool p ! unat (last xs - 1))\<lparr>next_n := free_nodes p\<rparr>],
                  free_nodes := x\<rparr>"
  from assms have ne: "xs \<noteq> []" by auto
  have fs: "free_stack this p x = Some (Inr (0, ?p))"
    using assms(1) ne by (rule free_stack_chain)
  have "next_at p (last xs) = Inr 0" using assms(1) ne by (rule chain_last_next)
  then have sn: "set_next p (last xs) (free_nodes p) = Inr ?q" by (rule set_next_ok)
  have d: "distinct xs" using assms(1) by (rule chain_distinct)
  have "path p x xs 0" using assms(1) by (simp add: chain_def)
  then have "path ?q x xs (free_nodes p)" using ne d sn by (rule path_splice)
  then have pth: "path ?p x xs (free_nodes p)"
    using path_frame [of xs ?p ?q x "free_nodes p"] by simp
  have nxt: "\<And>y. next_at ?p y = (if y = last xs then Inr (free_nodes p) else next_at p y)"
    using next_at_set_next [OF sn] by simp
  have push: "\<And>vs h. length vs = length xs \<Longrightarrow>
      \<exists>h' p''. push_all ?p h vs = Inr (h', p'') \<and> capacity p'' = capacity ?p \<and>
                length (pool p'') = length (pool ?p)"
  proof -
    fix vs :: "'a list" and h
    assume "length vs = length xs"
    then have "length vs \<le> length xs" by simp
    moreover have "path ?p (free_nodes ?p) xs (free_nodes p)" using pth by simp
    ultimately show "\<exists>h' p''. push_all ?p h vs = Inr (h', p'') \<and> capacity p'' = capacity ?p \<and>
                length (pool p'') = length (pool ?p)"
      unfolding capacity_def using d by (intro push_all_recycles)
  qed
  have app: "\<And>fs. chain p (free_nodes p) fs \<and> set xs \<inter> set fs = {} \<Longrightarrow> chain ?p x (xs @ fs)"
  proof -
    fix fs
    assume a: "chain p (free_nodes p) fs \<and> set xs \<inter> set fs = {}"
    from ne have "last xs \<in> set xs" by simp
    with a have "last xs \<notin> set fs" by blast
    then have "\<forall>y\<in>set fs. next_at ?p y = next_at p y" using nxt by auto
    then have "path ?p (free_nodes p) fs 0"
      using a path_frame [of fs ?p p "free_nodes p" 0] by (simp add: chain_def)
    with pth show "chain ?p x (xs @ fs)"
      unfolding chain_def path_append by blast
  qed
  show ?thesis
    using fs pth push app by (simp add: capacity_def)
qed


text \<open>
  The spec's scenario for C3: \<open>free_stack\<close> on a five-node chain, then five pushes onto a
  fresh stack.
\<close>

theorem free_stack_splices_chain_witness:
  "chain \<lparr>pool = [\<lparr>value_n = 1::int, next_n = 0\<rparr>, \<lparr>value_n = 2, next_n = 1\<rparr>,
                   \<lparr>value_n = 3, next_n = 2\<rparr>, \<lparr>value_n = 4, next_n = 3\<rparr>,
                   \<lparr>value_n = 5, next_n = 4\<rparr>], cap = 5, free_nodes = 0\<rparr> 5 [5, 4, 3, 2, 1] \<and>
   free_stack 0 \<lparr>pool = [\<lparr>value_n = 1::int, next_n = 0\<rparr>, \<lparr>value_n = 2, next_n = 1\<rparr>,
                   \<lparr>value_n = 3, next_n = 2\<rparr>, \<lparr>value_n = 4, next_n = 3\<rparr>,
                   \<lparr>value_n = 5, next_n = 4\<rparr>], cap = 5, free_nodes = 0\<rparr> 5 = Some (Inr (0, \<lparr>pool = [\<lparr>value_n = 1::int, next_n = 0\<rparr>, \<lparr>value_n = 2, next_n = 1\<rparr>,
                   \<lparr>value_n = 3, next_n = 2\<rparr>, \<lparr>value_n = 4, next_n = 3\<rparr>,
                   \<lparr>value_n = 5, next_n = 4\<rparr>], cap = 5, free_nodes = 5\<rparr>)) \<and>
   (\<exists>h' p''. push_all \<lparr>pool = [\<lparr>value_n = 1::int, next_n = 0\<rparr>, \<lparr>value_n = 2, next_n = 1\<rparr>,
                   \<lparr>value_n = 3, next_n = 2\<rparr>, \<lparr>value_n = 4, next_n = 3\<rparr>,
                   \<lparr>value_n = 5, next_n = 4\<rparr>], cap = 5, free_nodes = 5\<rparr> 0 [11, 12, 13, 14, 15] = Inr (h', p'') \<and>
             capacity p'' = capacity \<lparr>pool = [\<lparr>value_n = 1::int, next_n = 0\<rparr>, \<lparr>value_n = 2, next_n = 1\<rparr>,
                   \<lparr>value_n = 3, next_n = 2\<rparr>, \<lparr>value_n = 4, next_n = 3\<rparr>,
                   \<lparr>value_n = 5, next_n = 4\<rparr>], cap = 5, free_nodes = 5\<rparr> \<and>
             length (pool p'') = length (pool \<lparr>pool = [\<lparr>value_n = 1::int, next_n = 0\<rparr>, \<lparr>value_n = 2, next_n = 1\<rparr>,
                   \<lparr>value_n = 3, next_n = 2\<rparr>, \<lparr>value_n = 4, next_n = 3\<rparr>,
                   \<lparr>value_n = 5, next_n = 4\<rparr>], cap = 5, free_nodes = 5\<rparr>)) \<and>
   chain \<lparr>pool = [\<lparr>value_n = 1::int, next_n = 0\<rparr>, \<lparr>value_n = 2, next_n = 1\<rparr>,
                   \<lparr>value_n = 3, next_n = 2\<rparr>, \<lparr>value_n = 4, next_n = 3\<rparr>,
                   \<lparr>value_n = 5, next_n = 4\<rparr>], cap = 5, free_nodes = 5\<rparr> 5 [5, 4, 3, 2, 1]"
proof -
  let ?P = "\<lparr>pool = [\<lparr>value_n = 1::int, next_n = 0\<rparr>, \<lparr>value_n = 2, next_n = 1\<rparr>,
                   \<lparr>value_n = 3, next_n = 2\<rparr>, \<lparr>value_n = 4, next_n = 3\<rparr>,
                   \<lparr>value_n = 5, next_n = 4\<rparr>], cap = 5, free_nodes = 0\<rparr>"
  let ?P' = "\<lparr>pool = [\<lparr>value_n = 1::int, next_n = 0\<rparr>, \<lparr>value_n = 2, next_n = 1\<rparr>,
                   \<lparr>value_n = 3, next_n = 2\<rparr>, \<lparr>value_n = 4, next_n = 3\<rparr>,
                   \<lparr>value_n = 5, next_n = 4\<rparr>], cap = 5, free_nodes = 5\<rparr>"
  have c: "chain ?P 5 [5, 4, 3, 2, 1]"
    by (simp add: chain_def next_at_def node_def)
  have nz: "(5::stack_type) \<noteq> 0" by simp
  from free_stack_splices_chain [OF c nz, of 0] obtain p' where
    1: "free_stack 0 ?P 5 = Some (Inr (0, p'))" and
    2: "p' = ?P\<lparr>pool := (pool ?P)[unat (last [5, 4, 3, 2, 1 :: stack_type] - 1) :=
                 (pool ?P ! unat (last [5, 4, 3, 2, 1 :: stack_type] - 1))\<lparr>next_n := free_nodes ?P\<rparr>],
               free_nodes := 5\<rparr>" and
    3: "\<forall>vs h. length vs = length [5, 4, 3, 2, 1 :: stack_type] \<longrightarrow>
          (\<exists>h' p''. push_all p' h vs = Inr (h', p'') \<and> capacity p'' = capacity p' \<and>
                    length (pool p'') = length (pool p'))" and
    4: "\<forall>fs. chain ?P (free_nodes ?P) fs \<and> set [5, 4, 3, 2, 1 :: stack_type] \<inter> set fs = {} \<longrightarrow>
          chain p' 5 ([5, 4, 3, 2, 1] @ fs)"
    by blast
  have p': "p' = ?P'" using 2 by simp
  have a: "\<exists>h' p''. push_all p' 0 [11, 12, 13, 14, 15] = Inr (h', p'') \<and>
             capacity p'' = capacity p' \<and> length (pool p'') = length (pool p')"
    using 3 [rule_format, of "[11, 12, 13, 14, 15]" 0] by simp
  have b: "chain p' 5 [5, 4, 3, 2, 1]"
    using 4 [rule_format, of "[]"] by simp
  show ?thesis
    using c 1 a b unfolding p' by blast
qed


section \<open>Stacks as sequences\<close>

text \<open>
  Claim C5. Let \<open>s\<close> head a chain \<open>xs\<close> in a pool whose free head is the sentinel or an
  allocated node outside that chain. Then \<open>push(v, s)\<close> returns a handle \<open>h\<close> at which the
  value read is \<open>v\<close>, \<open>pop(h)\<close> returns \<open>s\<close>, and the sequence of values that a traversal
  from \<open>s\<close> visits is after the pop what it was before the push.
\<close>

theorem push_then_pop_restores:
  assumes "chain p s xs"
    and "free_nodes p = 0 \<or> (free_nodes p \<in> allocated p \<and> free_nodes p \<notin> set xs)"
    and "Suc (length (pool p)) < 2 ^ 64"
  shows "\<exists>h p1 p2. push p v s = Inr (h, p1) \<and> value_at p1 h = Inr v \<and>
           pop p1 h = Inr (s, p2) \<and> chain p2 s xs \<and>
           print_stack this p s = Some (Inr (values_at p xs)) \<and>
           print_stack this p2 s = Some (Inr (values_at p xs))"
proof -
  from assms(2) have fr: "free_nodes p = 0 \<or> free_nodes p \<in> allocated p" by blast
  from push_effect [OF fr assms(3), of v s] obtain h p1 where
    push: "push p v s = Inr (h, p1)" and h0: "h \<noteq> 0" and
    h: "h = (if free_nodes p = 0 then of_nat (Suc (length (pool p))) else free_nodes p)" and
    n1: "\<forall>y. next_at p1 y = (if y = h then Inr s else next_at p y)" and
    v1: "\<forall>y. value_at p1 y = (if y = h then Inr v else value_at p y)" and
    a1: "allocated p1 = insert h (allocated p)" and
    new: "free_nodes p = 0 \<longrightarrow> h \<notin> allocated p"
    by blast
  have sub: "set xs \<subseteq> allocated p" using assms(1) by (rule chain_allocated)
  have hx: "h \<notin> set xs"
  proof (cases "free_nodes p = 0")
    case True
    with new sub show ?thesis by blast
  next
    case False
    with assms(2) h show ?thesis by simp
  qed
  have nh: "next_at p1 h = Inr s" using n1 by simp
  from pop_effect [OF h0 nh] obtain p2 where
    pop: "pop p1 h = Inr (s, p2)" and
    n2: "\<forall>y. next_at p2 y = (if y = h then Inr (free_nodes p1) else next_at p1 y)" and
    v2: "\<forall>y. value_at p2 y = value_at p1 y" and
    a2: "allocated p2 = allocated p1"
    by blast
  have "\<forall>y\<in>set xs. next_at p2 y = next_at p y" using n1 n2 hx by auto
  then have c2: "chain p2 s xs" using assms(1) chain_frame [of xs p2 p s] by simp
  have "\<forall>y\<in>set xs. value_at p2 y = value_at p y" using v1 v2 hx by auto
  moreover have "set xs \<subseteq> allocated p2" using sub a1 a2 by auto
  ultimately have vals: "values_at p2 xs = values_at p xs"
    using sub by (intro values_at_frame)
  have "print_stack this p2 s = Some (Inr (values_at p xs))"
    using print_stack_chain [OF c2, of this] vals by simp
  moreover have "print_stack this p s = Some (Inr (values_at p xs))"
    using assms(1) by (rule print_stack_chain)
  moreover have "value_at p1 h = Inr v" using v1 by simp
  ultimately show ?thesis using push pop c2 by blast
qed

text \<open>
  The hypotheses of C5 hold for the stack 5, 3 of the spec's third scenario.
\<close>

theorem push_then_pop_restores_witness:
  "chain \<lparr>pool = [\<lparr>value_n = 3::int, next_n = 0\<rparr>, \<lparr>value_n = 5, next_n = 1\<rparr>], cap = 4,
            free_nodes = 0\<rparr> 2 [2, 1] \<and>
   (\<exists>h p1 p2. push \<lparr>pool = [\<lparr>value_n = 3::int, next_n = 0\<rparr>, \<lparr>value_n = 5, next_n = 1\<rparr>], cap = 4,
            free_nodes = 0\<rparr> 7 2 = Inr (h, p1) \<and> value_at p1 h = Inr 7 \<and>
       pop p1 h = Inr (2, p2) \<and> chain p2 2 [2, 1] \<and>
       print_stack 0 \<lparr>pool = [\<lparr>value_n = 3::int, next_n = 0\<rparr>, \<lparr>value_n = 5, next_n = 1\<rparr>], cap = 4,
            free_nodes = 0\<rparr> 2 = Some (Inr [5, 3]) \<and>
       print_stack 0 p2 2 = Some (Inr [5, 3]))"
proof -
  let ?P = "\<lparr>pool = [\<lparr>value_n = 3::int, next_n = 0\<rparr>, \<lparr>value_n = 5, next_n = 1\<rparr>], cap = 4,
            free_nodes = 0\<rparr>"
  have c: "chain ?P 2 [2, 1]"
    by (simp add: chain_def next_at_def node_def)
  have f: "free_nodes ?P = 0 \<or> (free_nodes ?P \<in> allocated ?P \<and> free_nodes ?P \<notin> set [2, 1])"
    by simp
  have b: "Suc (length (pool ?P)) < 2 ^ 64" by simp
  from push_then_pop_restores [OF c f b, of 7 0] c show ?thesis
    by (simp add: values_at_def)
qed

lemma push_all_chain:
  "chain p h xs \<Longrightarrow> chain p (free_nodes p) fs \<Longrightarrow> set xs \<inter> set fs = {} \<Longrightarrow>
   length (pool p) + length vs < 2 ^ 64 \<Longrightarrow>
   \<exists>h' p' xs'. push_all p h vs = Inr (h', p') \<and> chain p' h' xs' \<and>
              values_at p' xs' = rev vs @ values_at p xs"
proof (induction vs arbitrary: p h xs fs)
  case Nil
  then show ?case by auto
next
  case (Cons v vs)
  have subx: "set xs \<subseteq> allocated p" using Cons.prems(1) by (rule chain_allocated)
  have subf: "set fs \<subseteq> allocated p" using Cons.prems(2) by (rule chain_allocated)
  have fr: "free_nodes p = 0 \<or> free_nodes p \<in> allocated p"
    using Cons.prems(2) subf by (cases fs) (auto simp: chain_Cons)
  from Cons.prems(4) have bound: "Suc (length (pool p)) < 2 ^ 64" by simp
  from push_effect [OF fr bound, of v h] obtain h1 p1 where
    push: "push p v h = Inr (h1, p1)" and h0: "h1 \<noteq> 0" and
    h1: "h1 = (if free_nodes p = 0 then of_nat (Suc (length (pool p))) else free_nodes p)" and
    n1: "\<forall>y. next_at p1 y = (if y = h1 then Inr h else next_at p y)" and
    v1: "\<forall>y. value_at p1 y = (if y = h1 then Inr v else value_at p y)" and
    a1: "allocated p1 = insert h1 (allocated p)" and
    old: "free_nodes p \<noteq> 0 \<longrightarrow> next_at p (free_nodes p) = Inr (free_nodes p1) \<and>
            length (pool p1) = length (pool p)" and
    new: "free_nodes p = 0 \<longrightarrow> free_nodes p1 = 0 \<and> h1 \<notin> allocated p \<and>
            length (pool p1) = Suc (length (pool p))"
    by blast
  have hx: "h1 \<notin> set xs \<and> h1 \<notin> set (tl fs) \<and> chain p1 (free_nodes p1) (tl fs)"
  proof (cases "free_nodes p = 0")
    case True
    with Cons.prems(2) have "fs = []" by (cases fs) (auto simp: chain_Cons)
    with True new subx show ?thesis by auto
  next
    case False
    with Cons.prems(2) obtain fs' where fs: "fs = free_nodes p # fs'"
      by (cases fs) (auto simp: chain_Cons)
    with Cons.prems(2) old False have c: "chain p (free_nodes p1) fs'"
      by (auto simp: chain_Cons)
    have nf: "free_nodes p \<notin> set fs'"
      using Cons.prems(2) unfolding fs by (rule chain_head_notin_tail)
    then have "\<forall>y\<in>set fs'. next_at p1 y = next_at p y" using n1 h1 False by auto
    with c have "chain p1 (free_nodes p1) fs'"
      using chain_frame [of fs' p1 p "free_nodes p1"] by simp
    with nf h1 False fs Cons.prems(3) show ?thesis by auto
  qed
  then have "\<forall>y\<in>set xs. next_at p1 y = next_at p y" using n1 by auto
  with Cons.prems(1) have "chain p1 h xs"
    using chain_frame [of xs p1 p h] by simp
  then have c1: "chain p1 h1 (h1 # xs)" using h0 n1 by (simp add: chain_Cons)
  have d1: "set (h1 # xs) \<inter> set (tl fs) = {}"
    using hx Cons.prems(3) by (cases fs) auto
  have b1: "length (pool p1) + length vs < 2 ^ 64"
    using Cons.prems(4) old new by (cases "free_nodes p = 0") auto
  from Cons.IH [OF c1 _ d1 b1] hx obtain h' p' xs' where
    r: "push_all p1 h1 vs = Inr (h', p')" "chain p' h' xs'"
       "values_at p' xs' = rev vs @ values_at p1 (h1 # xs)"
    by blast
  have "\<forall>y\<in>set xs. value_at p1 y = value_at p y" using v1 hx by auto
  moreover have "set xs \<subseteq> allocated p1" using subx a1 by auto
  ultimately have "values_at p1 xs = values_at p xs"
    using subx by (intro values_at_frame)
  moreover have "value_n (pool p1 ! unat (h1 - 1)) = v"
  proof -
    have "h1 \<in> allocated p1" using a1 by simp
    then have "value_at p1 h1 = Inr (value_n (pool p1 ! unat (h1 - 1)))"
      by (rule value_at_allocated)
    with v1 show ?thesis by simp
  qed
  ultimately have "values_at p1 (h1 # xs) = v # values_at p xs"
    by (simp add: values_at_def)
  with r push show ?case by auto
qed

text \<open>
  Claim C6. On a pool with a well-formed free list, pushing the values \<open>vs\<close> one by one,
  starting from the handle of \<open>new_stack()\<close> and threading each returned handle into the next
  push, succeeds, and the traversal of the final handle from \<open>begin\<close> to \<open>end\<close> terminates
  having visited exactly \<open>length vs\<close> values: those of \<open>vs\<close>, last pushed first.
\<close>

theorem pushes_iterate_in_reverse:
  assumes "chain p (free_nodes p) fs" and "length (pool p) + length vs < 2 ^ 64"
  shows "\<exists>h p' ys. push_all p new_stack vs = Inr (h, p') \<and>
           print_stack this p' h = Some (Inr ys) \<and> length ys = length vs \<and> ys = rev vs"
proof -
  have "chain p new_stack []" by (simp add: new_stack_def)
  from push_all_chain [OF this assms(1) _ assms(2)] obtain h p' xs' where
    "push_all p new_stack vs = Inr (h, p')" "chain p' h xs'" "values_at p' xs' = rev vs"
    by (auto simp: values_at_def)
  then show ?thesis
    using print_stack_chain [of p' h xs' this] by simp
qed

text \<open>
  The spec's first scenario for C6: the eleven pushes of \<open>main\<close> on a pool constructed with
  the hint 22.
\<close>

theorem pushes_iterate_in_reverse_witness:
  "chain (stack_pool_n 22 :: int stack_pool) (free_nodes (stack_pool_n 22 :: int stack_pool)) [] \<and>
   (\<exists>h p'. push_all (stack_pool_n 22) new_stack [3, 1, 4, 1, 5, 9, 2, 6, 5, 3, 5 :: int] = Inr (h, p') \<and>
           print_stack 0 p' h = Some (Inr [5, 3, 5, 6, 2, 9, 5, 1, 4, 1, 3]))"
proof -
  have c: "chain (stack_pool_n 22 :: int stack_pool) (free_nodes (stack_pool_n 22 :: int stack_pool)) []"
    by (simp add: stack_pool_n_def vector_reserve_def)
  have b: "length (pool (stack_pool_n 22 :: int stack_pool)) +
           length [3, 1, 4, 1, 5, 9, 2, 6, 5, 3, 5 :: int] < 2 ^ 64"
    by (simp add: stack_pool_n_def vector_reserve_def)
  from pushes_iterate_in_reverse [OF c b, of 0] c show ?thesis
    by auto
qed


section \<open>Invariant I2\<close>

lemma chains_frame:
  "list_all2 (chain p) rs cs \<Longrightarrow> \<forall>y\<in>set (concat cs). next_at p' y = next_at p y \<Longrightarrow>
   list_all2 (chain p') rs cs"
proof (induction rs cs rule: list_all2_induct)
  case Nil
  then show ?case by simp
next
  case (Cons r rs c cs)
  from Cons.prems have "\<forall>y\<in>set c. next_at p' y = next_at p y" by simp
  with Cons.hyps(1) have "chain p' r c" using chain_frame [of c p' p r] by simp
  moreover from Cons.prems have "list_all2 (chain p') rs cs" by (simp add: Cons.IH)
  ultimately show ?case by simp
qed

lemma partitioned_split:
  assumes "partitioned p (ra @ r # rb) css fs"
  obtains ca c cb where "css = ca @ c # cb" "list_all2 (chain p) ra ca" "chain p r c"
    "list_all2 (chain p) rb cb" "chain p (free_nodes p) fs"
    "distinct (concat ca @ c @ concat cb @ fs)"
    "set (concat ca) \<union> set c \<union> set (concat cb) \<union> set fs = allocated p"
proof -
  from assms have l: "list_all2 (chain p) (ra @ r # rb) css"
    and f: "chain p (free_nodes p) fs" and d: "distinct (concat css @ fs)"
    and s: "set (concat css @ fs) = allocated p"
    by (simp_all add: partitioned_def)
  from l obtain ca cs where 1: "css = ca @ cs" "list_all2 (chain p) ra ca"
      "list_all2 (chain p) (r # rb) cs"
    by (auto simp: list_all2_append1)
  from 1(3) obtain c cb where 2: "cs = c # cb" "chain p r c" "list_all2 (chain p) rb cb"
    by (auto simp: list_all2_Cons1)
  show ?thesis
  proof (rule that [of ca c cb])
    show "css = ca @ c # cb" using 1 2 by simp
    show "distinct (concat ca @ c @ concat cb @ fs)" using d 1 2 by simp
    show "set (concat ca) \<union> set c \<union> set (concat cb) \<union> set fs = allocated p"
      using s 1 2 by (simp add: Un_assoc)
  qed (use 1 2 f in simp_all)
qed

lemma I2_step:
  assumes "list_all2 (chain p) ra ca" "list_all2 (chain p) rb cb"
    and "\<forall>y\<in>set (concat ca) \<union> set (concat cb). next_at p' y = next_at p y"
    and "chain p' r' c'" "chain p' (free_nodes p') fs'"
    and "distinct (concat ca @ c' @ concat cb @ fs')"
    and "set (concat ca) \<union> set c' \<union> set (concat cb) \<union> set fs' = allocated p'"
  shows "I2 p' (ra @ r' # rb)"
proof -
  have "\<forall>y\<in>set (concat ca). next_at p' y = next_at p y" using assms(3) by blast
  with assms(1) have a: "list_all2 (chain p') ra ca" by (rule chains_frame)
  have "\<forall>y\<in>set (concat cb). next_at p' y = next_at p y" using assms(3) by blast
  with assms(2) have b: "list_all2 (chain p') rb cb" by (rule chains_frame)
  from a assms(4) b have "list_all2 (chain p') (ra @ r' # rb) (ca @ c' # cb)"
    by (simp add: list_all2_appendI)
  then have "partitioned p' (ra @ r' # rb) (ca @ c' # cb) fs'"
    using assms(5,6,7) by (simp add: partitioned_def Un_assoc)
  then show ?thesis unfolding I2_def by blast
qed


lemma free_stack_effect:
  assumes "chain p x xs" "xs \<noteq> []"
  shows "\<exists>p'. free_stack this p x = Some (Inr (0, p')) \<and> free_nodes p' = x \<and>
           (\<forall>y. next_at p' y = (if y = last xs then Inr (free_nodes p) else next_at p y)) \<and>
           allocated p' = allocated p \<and> path p' x xs (free_nodes p)"
proof -
  let ?q = "p\<lparr>pool := (pool p)[unat (last xs - 1) :=
                           (pool p ! unat (last xs - 1))\<lparr>next_n := free_nodes p\<rparr>]\<rparr>"
  have fs: "free_stack this p x = Some (Inr (0, ?q\<lparr>free_nodes := x\<rparr>))"
    using free_stack_chain [OF assms, of this] by simp
  have "next_at p (last xs) = Inr 0" using assms by (rule chain_last_next)
  then have sn: "set_next p (last xs) (free_nodes p) = Inr ?q" by (rule set_next_ok)
  have d: "distinct xs" using assms(1) by (rule chain_distinct)
  have "path p x xs 0" using assms(1) by (simp add: chain_def)
  then have "path ?q x xs (free_nodes p)" using assms(2) d sn by (rule path_splice)
  then have "path (?q\<lparr>free_nodes := x\<rparr>) x xs (free_nodes p)"
    using path_frame [of xs "?q\<lparr>free_nodes := x\<rparr>" ?q x "free_nodes p"] by simp
  moreover have "\<forall>y. next_at (?q\<lparr>free_nodes := x\<rparr>) y =
                   (if y = last xs then Inr (free_nodes p) else next_at p y)"
    using next_at_set_next [OF sn] by simp
  moreover have "allocated (?q\<lparr>free_nodes := x\<rparr>) = allocated p"
    by (simp add: allocated_def)
  ultimately show ?thesis using fs by simp
qed

lemma I2_push:
  assumes "partitioned p (ra @ r # rb) css fs" and "Suc (length (pool p)) < 2 ^ 64"
  shows "\<exists>h p'. push p v r = Inr (h, p') \<and> I2 p' (ra @ h # rb)"
proof -
  from assms(1) obtain ca c cb where
    la: "list_all2 (chain p) ra ca" and c: "chain p r c" and lb: "list_all2 (chain p) rb cb" and
    f: "chain p (free_nodes p) fs" and d: "distinct (concat ca @ c @ concat cb @ fs)" and
    al: "set (concat ca) \<union> set c \<union> set (concat cb) \<union> set fs = allocated p"
    by (rule partitioned_split)
  have fr: "free_nodes p = 0 \<or> free_nodes p \<in> allocated p"
    using f al by (cases fs) (auto simp: chain_Cons)
  from push_effect [OF fr assms(2), of v r] obtain h p1 where
    push: "push p v r = Inr (h, p1)" and h0: "h \<noteq> 0" and
    h: "h = (if free_nodes p = 0 then of_nat (Suc (length (pool p))) else free_nodes p)" and
    n1: "\<forall>y. next_at p1 y = (if y = h then Inr r else next_at p y)" and
    a1: "allocated p1 = insert h (allocated p)" and
    old: "free_nodes p \<noteq> 0 \<longrightarrow> next_at p (free_nodes p) = Inr (free_nodes p1)" and
    new: "free_nodes p = 0 \<longrightarrow> free_nodes p1 = 0 \<and> h \<notin> allocated p"
    by blast
  have k: "h \<notin> set (concat ca) \<union> set c \<union> set (concat cb) \<union> set (tl fs) \<and>
           chain p1 (free_nodes p1) (tl fs) \<and>
           insert h (set (tl fs)) = insert h (set fs)"
  proof (cases "free_nodes p = 0")
    case True
    with f have "fs = []" by (cases fs) (auto simp: chain_Cons)
    with True new al show ?thesis by auto
  next
    case False
    with f obtain fs' where fs: "fs = free_nodes p # fs'"
      by (cases fs) (auto simp: chain_Cons)
    with f old False have cf: "chain p (free_nodes p1) fs'"
      by (auto simp: chain_Cons)
    from d fs have nf: "free_nodes p \<notin> set (concat ca) \<union> set c \<union> set (concat cb) \<union> set fs'"
      by auto
    then have "\<forall>y\<in>set fs'. next_at p1 y = next_at p y" using n1 h False by auto
    with cf have "chain p1 (free_nodes p1) fs'"
      using chain_frame [of fs' p1 p "free_nodes p1"] by simp
    with nf h False fs show ?thesis by auto
  qed
  have "\<forall>y\<in>set c. next_at p1 y = next_at p y" using n1 k by auto
  with c have "chain p1 r c" using chain_frame [of c p1 p r] by simp
  then have c1: "chain p1 h (h # c)" using h0 n1 by (simp add: chain_Cons)
  have fo: "\<forall>y\<in>set (concat ca) \<union> set (concat cb). next_at p1 y = next_at p y"
    using n1 k by auto
  have d1: "distinct (concat ca @ (h # c) @ concat cb @ tl fs)"
    using d k by (cases fs) auto
  have s1: "set (concat ca) \<union> set (h # c) \<union> set (concat cb) \<union> set (tl fs) = allocated p1"
    using al a1 k by auto
  have "I2 p1 (ra @ h # rb)"
    using la lb fo c1 _ d1 s1 by (rule I2_step) (use k in simp)
  with push show ?thesis by blast
qed

lemma I2_pop:
  assumes "partitioned p (ra @ r # rb) css fs"
  shows "\<exists>h p'. pop p r = Inr (h, p') \<and> I2 p' (ra @ h # rb)"
proof (cases "r = 0")
  case True
  then have "pop p r = Inr (r, p)" by (simp add: pop_def empty_stack_def end_stack_def)
  moreover have "I2 p (ra @ r # rb)" using assms unfolding I2_def by blast
  ultimately show ?thesis by blast
next
  case False
  from assms obtain ca c cb where
    la: "list_all2 (chain p) ra ca" and c: "chain p r c" and lb: "list_all2 (chain p) rb cb" and
    f: "chain p (free_nodes p) fs" and d: "distinct (concat ca @ c @ concat cb @ fs)" and
    al: "set (concat ca) \<union> set c \<union> set (concat cb) \<union> set fs = allocated p"
    by (rule partitioned_split)
  from c False obtain c' n where c': "c = r # c'" and n: "next_at p r = Inr n" and cn: "chain p n c'"
    by (cases c) (auto simp: chain_Cons)
  from pop_effect [OF False n] obtain p2 where
    pop: "pop p r = Inr (n, p2)" and f2: "free_nodes p2 = r" and
    n2: "\<forall>y. next_at p2 y = (if y = r then Inr (free_nodes p) else next_at p y)" and
    a2: "allocated p2 = allocated p"
    by blast
  from d c' have nr: "r \<notin> set (concat ca) \<union> set c' \<union> set (concat cb) \<union> set fs" by auto
  have "\<forall>y\<in>set c'. next_at p2 y = next_at p y" using n2 nr by auto
  with cn have c2: "chain p2 n c'" using chain_frame [of c' p2 p n] by simp
  have "\<forall>y\<in>set fs. next_at p2 y = next_at p y" using n2 nr by auto
  with f have "chain p2 (free_nodes p) fs" using chain_frame [of fs p2 p "free_nodes p"] by simp
  then have "chain p2 r (r # fs)" using False n2 by (simp add: chain_Cons)
  then have ff: "chain p2 (free_nodes p2) (r # fs)" by (simp add: f2)
  have fo: "\<forall>y\<in>set (concat ca) \<union> set (concat cb). next_at p2 y = next_at p y"
    using n2 nr by auto
  have d2: "distinct (concat ca @ c' @ concat cb @ r # fs)"
    using d c' by auto
  have s2: "set (concat ca) \<union> set c' \<union> set (concat cb) \<union> set (r # fs) = allocated p2"
    using al a2 c' by auto
  have "I2 p2 (ra @ n # rb)"
    using la lb fo c2 ff d2 s2 by (rule I2_step)
  with pop show ?thesis by blast
qed

lemma I2_free_stack:
  assumes "partitioned p (ra @ r # rb) css fs" and "r \<noteq> 0"
  shows "\<exists>p'. free_stack this p r = Some (Inr (0, p')) \<and> I2 p' (ra @ 0 # rb)"
proof -
  from assms(1) obtain ca c cb where
    la: "list_all2 (chain p) ra ca" and c: "chain p r c" and lb: "list_all2 (chain p) rb cb" and
    f: "chain p (free_nodes p) fs" and d: "distinct (concat ca @ c @ concat cb @ fs)" and
    al: "set (concat ca) \<union> set c \<union> set (concat cb) \<union> set fs = allocated p"
    by (rule partitioned_split)
  from c assms(2) have ne: "c \<noteq> []" by auto
  from free_stack_effect [OF c ne, of this] obtain p' where
    fs: "free_stack this p r = Some (Inr (0, p'))" and f': "free_nodes p' = r" and
    n': "\<forall>y. next_at p' y = (if y = last c then Inr (free_nodes p) else next_at p y)" and
    a': "allocated p' = allocated p" and pth: "path p' r c (free_nodes p)"
    by blast
  from ne have lc: "last c \<in> set c" by simp
  with d have nl: "last c \<notin> set (concat ca) \<union> set (concat cb) \<union> set fs" by auto
  then have "\<forall>y\<in>set fs. next_at p' y = next_at p y" using n' by auto
  with f have "path p' (free_nodes p) fs 0"
    using path_frame [of fs p' p "free_nodes p" 0] by (simp add: chain_def)
  with pth have "chain p' r (c @ fs)" unfolding chain_def path_append by blast
  then have ff: "chain p' (free_nodes p') (c @ fs)" by (simp add: f')
  have fo: "\<forall>y\<in>set (concat ca) \<union> set (concat cb). next_at p' y = next_at p y"
    using n' nl by auto
  have c0: "chain p' 0 []" by simp
  have d': "distinct (concat ca @ [] @ concat cb @ c @ fs)"
    using d by auto
  have s': "set (concat ca) \<union> set [] \<union> set (concat cb) \<union> set (c @ fs) = allocated p'"
    using al a' by auto
  have "I2 p' (ra @ 0 # rb)"
    using la lb fo c0 ff d' s' by (rule I2_step)
  with fs show ?thesis by blast
qed

lemma I2_new_stack:
  assumes "partitioned p roots css fs"
  shows "I2 p (roots @ [new_stack])"
proof -
  from assms have "list_all2 (chain p) (roots @ [new_stack]) (css @ [[]])"
    by (simp add: partitioned_def new_stack_def list_all2_appendI)
  with assms have "partitioned p (roots @ [new_stack]) (css @ [[]]) fs"
    by (simp add: partitioned_def)
  then show ?thesis unfolding I2_def by blast
qed

text \<open>
  Claim C4. Let the callers hold the handles \<open>ra @ r # rb\<close>, and let I2 hold: the chains of
  these handles and the free list are disjoint, free of repetition, and cover the allocated
  handles \<open>1..=len\<close>. Then \<open>push(v, r)\<close> and \<open>pop(r)\<close> return a handle \<open>h\<close>, and I2 holds of
  the new pool with \<open>h\<close> held in place of \<open>r\<close> (a newly appended position included); for a
  non-sentinel \<open>r\<close>, \<open>free_stack(r)\<close> returns 0 and I2 holds with 0 in place of \<open>r\<close>; and
  holding the handle of \<open>new_stack()\<close> as well keeps I2.
\<close>

theorem I2_preserved:
  assumes "I2 p (ra @ r # rb)" and "Suc (length (pool p)) < 2 ^ 64"
  shows "(\<exists>h p'. push p v r = Inr (h, p') \<and> I2 p' (ra @ h # rb)) \<and>
         (\<exists>h p'. pop p r = Inr (h, p') \<and> I2 p' (ra @ h # rb)) \<and>
         (r \<noteq> 0 \<longrightarrow> (\<exists>p'. free_stack this p r = Some (Inr (0, p')) \<and> I2 p' (ra @ 0 # rb))) \<and>
         I2 p ((ra @ r # rb) @ [new_stack])"
proof -
  from assms(1) obtain css fs where pt: "partitioned p (ra @ r # rb) css fs"
    unfolding I2_def by blast
  show ?thesis
    using I2_push [OF pt assms(2), of v] I2_pop [OF pt] I2_free_stack [OF pt, of this]
      I2_new_stack [OF pt]
    by blast
qed

lemma handles_upto_3:
  "{h::stack_type. h \<noteq> 0 \<and> unat h \<le> 3} = {2, 1, 3}"
proof -
  have a: "\<And>h::stack_type. (h \<noteq> 0 \<and> unat h \<le> 3) = (unat h = 2 \<or> unat h = 1 \<or> unat h = 3)"
  proof -
    fix h :: stack_type
    have "(h = 0) = (unat h = 0)" by (simp add: unat_0_iff)
    then show "(h \<noteq> 0 \<and> unat h \<le> 3) = (unat h = 2 \<or> unat h = 1 \<or> unat h = 3)" by arith
  qed
  have b: "\<And>h::stack_type. (unat h = 2 \<or> unat h = 1 \<or> unat h = 3) = (h = 2 \<or> h = 1 \<or> h = 3)"
    by (simp add: word_unat_eq_iff)
  have "{h::stack_type. h \<noteq> 0 \<and> unat h \<le> 3} = {h. h = 2 \<or> h = 1 \<or> h = 3}"
    by (simp only: a b)
  also have "\<dots> = {2, 1, 3}" by blast
  finally show ?thesis .
qed

text \<open>
  I2 holds of a three-node pool with the chain 2, 1 held by one caller, an empty stack held
  by another, and node 3 on the free list; C4 applies to the handle 2.
\<close>

theorem I2_preserved_witness:
  "I2 \<lparr>pool = [\<lparr>value_n = 10::int, next_n = 0\<rparr>, \<lparr>value_n = 20, next_n = 1\<rparr>,
                     \<lparr>value_n = 30, next_n = 0\<rparr>], cap = 4, free_nodes = 3\<rparr> [2, 0] \<and>
   (\<exists>h p'. push \<lparr>pool = [\<lparr>value_n = 10::int, next_n = 0\<rparr>, \<lparr>value_n = 20, next_n = 1\<rparr>,
                     \<lparr>value_n = 30, next_n = 0\<rparr>], cap = 4, free_nodes = 3\<rparr> 7 2 = Inr (h, p') \<and> I2 p' [h, 0]) \<and>
   (\<exists>h p'. pop \<lparr>pool = [\<lparr>value_n = 10::int, next_n = 0\<rparr>, \<lparr>value_n = 20, next_n = 1\<rparr>,
                     \<lparr>value_n = 30, next_n = 0\<rparr>], cap = 4, free_nodes = 3\<rparr> 2 = Inr (h, p') \<and> I2 p' [h, 0]) \<and>
   (\<exists>p'. free_stack 0 \<lparr>pool = [\<lparr>value_n = 10::int, next_n = 0\<rparr>, \<lparr>value_n = 20, next_n = 1\<rparr>,
                     \<lparr>value_n = 30, next_n = 0\<rparr>], cap = 4, free_nodes = 3\<rparr> 2 = Some (Inr (0, p')) \<and> I2 p' [0, 0]) \<and>
   I2 \<lparr>pool = [\<lparr>value_n = 10::int, next_n = 0\<rparr>, \<lparr>value_n = 20, next_n = 1\<rparr>,
                     \<lparr>value_n = 30, next_n = 0\<rparr>], cap = 4, free_nodes = 3\<rparr> [2, 0, new_stack]"
proof -
  let ?P = "\<lparr>pool = [\<lparr>value_n = 10::int, next_n = 0\<rparr>, \<lparr>value_n = 20, next_n = 1\<rparr>,
                     \<lparr>value_n = 30, next_n = 0\<rparr>], cap = 4, free_nodes = 3\<rparr>"
  have "allocated ?P = {h. h \<noteq> 0 \<and> unat h \<le> 3}"
    by (simp add: allocated_def numeral_3_eq_3)
  then have al: "allocated ?P = {2, 1, 3}"
    by (simp only: handles_upto_3)
  have "partitioned ?P [2, 0] [[2, 1], []] [3]"
    by (simp add: partitioned_def al chain_def next_at_def node_def)
  then have "I2 ?P [2, 0]"
    unfolding I2_def by blast
  then have i: "I2 ?P ([] @ 2 # [0])" by simp
  have b: "Suc (length (pool ?P)) < 2 ^ 64" by simp
  from I2_preserved [OF i b, of 7 0] i show ?thesis
    by simp
qed


end
